theory Spec2Isabelle
  imports Main "HOL-Library.Word"
begin

unbundle bit_operations_syntax

section \<open>Machine types of the target (AVR)\<close>

text \<open>
  On the AVR target a \<open>byte\<close> is 8 bits, an \<open>int\<close> and a \<open>uint16_t\<close> are 16 bits and an
  \<open>unsigned long\<close> is 32 bits. Arithmetic on words wraps around as the C arithmetic does.
  \<open>bufferIndex\<close>, \<open>commandLength\<close> and the result of \<open>getRequiredArgs\<close> are C
  \<open>int\<close>s that stay between 0 and 11; they are modelled as \<open>int\<close>.
\<close>

type_synonym byte = "8 word"
type_synonym uint16 = "16 word"
type_synonym ulong = "32 word"

section \<open>config.h\<close>

definition VERSION :: uint16 where "VERSION = 1"
definition INFO :: string where "INFO = ''Arduino REPL v1.0''"
definition COMMANDS_COUNT :: byte where "COMMANDS_COUNT = 8"
definition SUCCESS_CODE :: byte where "SUCCESS_CODE = 0xFF"
definition ERROR_CODE :: byte where "ERROR_CODE = 0xFE"
definition BUFFER_SIZE :: int where "BUFFER_SIZE = 10"
definition MAX_SOFT_PWM :: nat where "MAX_SOFT_PWM = 6"
definition SOFT_PWM_FREQ :: nat where "SOFT_PWM_FREQ = 50"
definition TOTAL_RAM :: uint16 where "TOTAL_RAM = 2048"
definition FLASH_SIZE :: ulong where "FLASH_SIZE = 32256"
definition CPU_FREQ :: ulong where "CPU_FREQ = 16000000"
definition HARDWARE_PWM_PINS :: "byte list" where "HARDWARE_PWM_PINS = [3, 5, 6, 9, 10, 11]"
definition DIGITAL_PINS :: byte where "DIGITAL_PINS = 14"
definition TOTAL_PINS :: byte where "TOTAL_PINS = 22"

lemmas config_defs =
  VERSION_def INFO_def COMMANDS_COUNT_def SUCCESS_CODE_def ERROR_CODE_def BUFFER_SIZE_def
  MAX_SOFT_PWM_def SOFT_PWM_FREQ_def TOTAL_RAM_def FLASH_SIZE_def CPU_FREQ_def
  HARDWARE_PWM_PINS_def DIGITAL_PINS_def TOTAL_PINS_def

text \<open>The pin levels of the Arduino core.\<close>

definition LOW :: byte where "LOW = 0"
definition HIGH :: byte where "HIGH = 1"

section \<open>commands.h: opcodes and the command result\<close>

definition CMD_NOP :: byte where "CMD_NOP = 0"
definition CMD_INFO :: byte where "CMD_INFO = 1"
definition CMD_DIGITALREAD :: byte where "CMD_DIGITALREAD = 2"
definition CMD_DIGITALWRITE :: byte where "CMD_DIGITALWRITE = 3"
definition CMD_ANALOGREAD :: byte where "CMD_ANALOGREAD = 4"
definition CMD_ANALOGWRITE :: byte where "CMD_ANALOGWRITE = 5"
definition CMD_PINMODE :: byte where "CMD_PINMODE = 6"
definition CMD_RESET :: byte where "CMD_RESET = 7"

lemmas cmd_defs =
  CMD_NOP_def CMD_INFO_def CMD_DIGITALREAD_def CMD_DIGITALWRITE_def CMD_ANALOGREAD_def
  CMD_ANALOGWRITE_def CMD_PINMODE_def CMD_RESET_def

record CommandResult =
  hasError :: bool
  hasOutput :: bool
  isTwoByteOutput :: bool
  outputValue :: uint16

section \<open>soft\_pwm.h: a software-PWM channel\<close>

record SoftPWM =
  pin :: byte
  dutyCycle :: byte
  lastToggle :: ulong
  state :: bool
  enabled :: bool

section \<open>The firmware state\<close>

text \<open>
  Every call into the hardware abstraction layer is recorded, in order, in \<open>hw\<close>; every
  byte given to \<open>Serial.write\<close> is recorded, in order, in \<open>serialOut\<close>; \<open>serialIn\<close> holds the
  bytes the serial port has available. \<open>slotTrace\<close> is a ghost field: every read or write
  of a slot of the channel table appends the slot index together with the value
  \<open>softPWMCount\<close> has at that moment.
\<close>

datatype hw_event =
  DigitalWrite byte byte
  | AnalogWrite byte byte
  | PinMode byte byte
  | DigitalRead byte
  | AnalogRead byte

record firmware =
  softPWM :: "SoftPWM list"
  softPWMCount :: byte
  commandBuffer :: "byte list"
  bufferIndex :: int
  result :: CommandResult
  hw :: "hw_event list"
  serialOut :: "byte list"
  serialIn :: "byte list"
  slotTrace :: "(nat \<times> nat) list"

text \<open>
  What the firmware reads from its environment: the analog pin base \<open>A0\<close> of the board
  (a constant of the Arduino core), the clock, the pin inputs and the free memory.
\<close>

record environment =
  A0 :: byte
  millis :: ulong
  digitalRead :: "byte \<Rightarrow> uint16"
  analogRead :: "byte \<Rightarrow> uint16"
  getFreeRam :: uint16

text \<open>
  A call either returns, or indexes an array outside its bounds (undefined behaviour in
  C), or jumps to address 0 and restarts the firmware.
\<close>

datatype 'a exec = Returns 'a | OutOfBounds | Restarts firmware

section \<open>utils.cpp\<close>

text \<open>\<open>readPin\<close> takes \<open>error\<close> by reference: the model returns it beside the pin.\<close>

definition readPin :: "byte \<Rightarrow> byte \<Rightarrow> bool \<Rightarrow> byte \<times> bool" where
  "readPin a0 pn error =
     (if pn < DIGITAL_PINS then (pn, error)
      else if pn < TOTAL_PINS then (pn - DIGITAL_PINS + a0, error)
      else (0, True))"

definition isHardwarePWMPin :: "byte \<Rightarrow> bool" where
  "isHardwarePWMPin pn = List.member HARDWARE_PWM_PINS pn"

section \<open>soft\_pwm.cpp\<close>

text \<open>
  The channel table is a fixed array: an index at or beyond its length is out of bounds,
  and the operation then has no result (\<open>None\<close>). Every slot access goes through
  \<open>readSlot\<close> or \<open>updateSlot\<close>, which note the access in \<open>slotTrace\<close>.
\<close>

definition touch :: "byte \<Rightarrow> firmware \<Rightarrow> firmware" where
  "touch i st = st\<lparr>slotTrace := slotTrace st @ [(unat i, unat (softPWMCount st))]\<rparr>"

definition readSlot :: "byte \<Rightarrow> firmware \<Rightarrow> (SoftPWM \<times> firmware) option" where
  "readSlot i st =
     (if unat i < length (softPWM st) then Some (softPWM st ! unat i, touch i st) else None)"

definition updateSlot :: "byte \<Rightarrow> (SoftPWM \<Rightarrow> SoftPWM) \<Rightarrow> firmware \<Rightarrow> firmware option" where
  "updateSlot i f st =
     (if unat i < length (softPWM st)
      then Some ((touch i st)\<lparr>softPWM := (softPWM st)[unat i := f (softPWM st ! unat i)]\<rparr>)
      else None)"

definition hwCall :: "hw_event \<Rightarrow> firmware \<Rightarrow> firmware" where
  "hwCall e st = st\<lparr>hw := hw st @ [e]\<rparr>"

text \<open>
  The scan of \<open>setPWM\<close>: it stops at the first slot below \<open>softPWMCount\<close> that holds the
  pin or is disabled, and at \<open>softPWMCount\<close> when there is none.
\<close>

function setPWM_scan :: "byte \<Rightarrow> byte \<Rightarrow> firmware \<Rightarrow> (byte \<times> firmware) option" where
  "setPWM_scan pn index st =
     (if index < softPWMCount st then
        (case readSlot index st of
           None \<Rightarrow> None
         | Some (ch, st') \<Rightarrow>
             if pin ch = pn \<or> \<not> enabled ch then Some (index, st')
             else setPWM_scan pn (index + 1) st')
      else Some (index, st))"
  by pat_completeness auto
termination
  apply (relation "measure (\<lambda>(pn, index, st). unat (softPWMCount st) - unat index)")
   apply simp
  apply (clarsimp simp: readSlot_def touch_def split: if_splits)
  apply unat_arith
  done

declare setPWM_scan.simps [simp del]

definition setPWM :: "ulong \<Rightarrow> byte \<Rightarrow> byte \<Rightarrow> firmware \<Rightarrow> (bool \<times> firmware) option" where
  "setPWM now pn duty st =
     (if isHardwarePWMPin pn then Some (True, hwCall (AnalogWrite pn duty) st)
      else
        (case setPWM_scan pn 0 (hwCall (DigitalWrite pn LOW) st) of
           None \<Rightarrow> None
         | Some (index, st1) \<Rightarrow>
             if unat index \<ge> MAX_SOFT_PWM then Some (False, st1)
             else if duty = 0 then
               (if index < softPWMCount st1 then
                  (case updateSlot index (\<lambda>ch. ch\<lparr>enabled := False\<rparr>) st1 of
                     None \<Rightarrow> None
                   | Some st2 \<Rightarrow> Some (True, st2))
                else Some (True, st1))
             else
               (let st2 = (if index = softPWMCount st1
                           then st1\<lparr>softPWMCount := softPWMCount st1 + 1\<rparr> else st1)
                in case updateSlot index
                          (\<lambda>_. \<lparr>pin = pn, dutyCycle = duty, lastToggle = now,
                                 state = False, enabled = True\<rparr>) st2 of
                     None \<Rightarrow> None
                   | Some st3 \<Rightarrow> Some (True, st3))))"

function resetPWM_loop :: "byte \<Rightarrow> byte \<Rightarrow> firmware \<Rightarrow> firmware option" where
  "resetPWM_loop pn i st =
     (if i < softPWMCount st then
        (case readSlot i st of
           None \<Rightarrow> None
         | Some (ch, st') \<Rightarrow>
             if pin ch = pn then updateSlot i (\<lambda>c. c\<lparr>enabled := False\<rparr>) st'
             else resetPWM_loop pn (i + 1) st')
      else Some st)"
  by pat_completeness auto
termination
  apply (relation "measure (\<lambda>(pn, i, st). unat (softPWMCount st) - unat i)")
   apply simp
  apply (clarsimp simp: readSlot_def touch_def split: if_splits)
  apply unat_arith
  done

declare resetPWM_loop.simps [simp del]

definition resetPWM :: "byte \<Rightarrow> firmware \<Rightarrow> firmware option" where
  "resetPWM pn st = resetPWM_loop pn 0 st"

text \<open>One iteration of the loop of \<open>updateSoftPWM\<close>, on slot \<open>i\<close>.\<close>

definition updateSoftPWM_body :: "ulong \<Rightarrow> byte \<Rightarrow> firmware \<Rightarrow> firmware option" where
  "updateSoftPWM_body now i st =
     (case readSlot i st of
        None \<Rightarrow> None
      | Some (ch, st') \<Rightarrow>
          if \<not> enabled ch then Some st'
          else
            (let period = (of_nat (1000 div SOFT_PWM_FREQ) :: ulong);
                 onTime = (period * ucast (dutyCycle ch)) div 255;
                 elapsed = now - lastToggle ch
             in if state ch \<and> elapsed \<ge> onTime then
                  updateSlot i (\<lambda>c. c\<lparr>state := False\<rparr>)
                    (hwCall (DigitalWrite (pin ch) LOW) st')
                else if \<not> state ch \<and> elapsed \<ge> period then
                  updateSlot i (\<lambda>c. c\<lparr>state := True, lastToggle := now\<rparr>)
                    (hwCall (DigitalWrite (pin ch) HIGH) st')
                else Some st'))"

function updateSoftPWM_loop :: "ulong \<Rightarrow> byte \<Rightarrow> firmware \<Rightarrow> firmware option" where
  "updateSoftPWM_loop now i st =
     (if i < softPWMCount st then
        (case updateSoftPWM_body now i st of
           None \<Rightarrow> None
         | Some st' \<Rightarrow> updateSoftPWM_loop now (i + 1) st')
      else Some st)"
  by pat_completeness auto
termination
proof (relation "measure (\<lambda>(now, i, st). unat (softPWMCount st) - unat i)")
  fix now :: ulong and i :: byte and st st' :: firmware
  assume lt: "i < softPWMCount st" and body: "updateSoftPWM_body now i st = Some st'"
  from body have "softPWMCount st' = softPWMCount st"
    by (auto simp: updateSoftPWM_body_def readSlot_def updateSlot_def touch_def hwCall_def
        Let_def split: if_splits)
  moreover from lt have "unat (softPWMCount st) - unat (i + 1) < unat (softPWMCount st) - unat i"
    by unat_arith
  ultimately show "((now, i + 1, st'), now, i, st)
      \<in> measure (\<lambda>(now, i, st). unat (softPWMCount st) - unat i)"
    by simp
qed simp

declare updateSoftPWM_loop.simps [simp del]

definition updateSoftPWM :: "ulong \<Rightarrow> firmware \<Rightarrow> firmware option" where
  "updateSoftPWM now st = updateSoftPWM_loop now 0 st"

section \<open>commands.cpp\<close>

definition getRequiredArgs :: "byte \<Rightarrow> int" where
  "getRequiredArgs command =
     (if command = CMD_NOP \<or> command = CMD_RESET \<or> command = CMD_INFO then 0
      else if command = CMD_PINMODE \<or> command = CMD_DIGITALWRITE \<or> command = CMD_ANALOGWRITE
        then 2
      else if command = CMD_DIGITALREAD \<or> command = CMD_ANALOGREAD then 1
      else 0)"

definition hasCompleteCommand :: "firmware \<Rightarrow> bool" where
  "hasCompleteCommand st =
     (bufferIndex st > 0 \<and> bufferIndex st > getRequiredArgs (commandBuffer st ! 0))"

definition Serial_write :: "byte \<Rightarrow> firmware \<Rightarrow> firmware" where
  "Serial_write b st = st\<lparr>serialOut := serialOut st @ [b]\<rparr>"

definition Serial_write_buf :: "byte list \<Rightarrow> firmware \<Rightarrow> firmware" where
  "Serial_write_buf bs st = st\<lparr>serialOut := serialOut st @ bs\<rparr>"

definition sendResponse :: "firmware \<Rightarrow> firmware" where
  "sendResponse st =
     (if hasError (result st) then Serial_write ERROR_CODE st
      else
        (let st1 =
           (if hasOutput (result st) then
              (let st' = Serial_write (ucast (outputValue (result st) AND 0xFF)) st
               in if isTwoByteOutput (result st)
                  then Serial_write (ucast (drop_bit 8 (outputValue (result st)) AND 0xFF)) st'
                  else st')
            else st)
         in Serial_write SUCCESS_CODE st1))"

definition sendUInt16 :: "uint16 \<Rightarrow> firmware \<Rightarrow> firmware" where
  "sendUInt16 v st =
     Serial_write (ucast (drop_bit 8 v AND 0xFF)) (Serial_write (ucast (v AND 0xFF)) st)"

definition sendUInt32 :: "ulong \<Rightarrow> firmware \<Rightarrow> firmware" where
  "sendUInt32 v st =
     Serial_write (ucast (drop_bit 24 v AND 0xFF))
       (Serial_write (ucast (drop_bit 16 v AND 0xFF))
          (Serial_write (ucast (drop_bit 8 v AND 0xFF))
             (Serial_write (ucast (v AND 0xFF)) st)))"

text \<open>\<open>sizeof(INFO)\<close> counts the terminating zero byte, and the buffer write sends it.\<close>

definition sendInfo :: "environment \<Rightarrow> firmware \<Rightarrow> firmware" where
  "sendInfo env st =
     foldl (\<lambda>s f. f s) st
       [sendUInt16 0xB416,
        sendUInt16 VERSION,
        sendUInt32 (millis env),
        sendUInt16 (getFreeRam env),
        sendUInt16 TOTAL_RAM,
        sendUInt32 FLASH_SIZE,
        sendUInt32 CPU_FREQ,
        Serial_write (of_int BUFFER_SIZE),
        Serial_write DIGITAL_PINS,
        Serial_write TOTAL_PINS,
        Serial_write (of_nat MAX_SOFT_PWM),
        Serial_write (of_nat SOFT_PWM_FREQ),
        Serial_write COMMANDS_COUNT,
        Serial_write SUCCESS_CODE,
        Serial_write ERROR_CODE,
        Serial_write (of_nat (length HARDWARE_PWM_PINS)),
        Serial_write_buf HARDWARE_PWM_PINS,
        Serial_write (of_nat (length INFO + 1)),
        Serial_write_buf (map of_char INFO @ [0])]"

definition emptyResult :: CommandResult where
  "emptyResult = \<lparr>hasError = False, hasOutput = False, isTwoByteOutput = False, outputValue = 0\<rparr>"

text \<open>The \<open>switch\<close> of \<open>executeBufferedCommand\<close>, entered with the translated pin.\<close>

definition executeSwitch :: "environment \<Rightarrow> byte \<Rightarrow> byte \<Rightarrow> firmware \<Rightarrow> firmware exec" where
  "executeSwitch env command pn st =
     (if command = CMD_NOP then Returns st
      else if command = CMD_INFO then
        (let st1 = sendInfo env st
         in Returns (st1\<lparr>result := (result st1)\<lparr>hasOutput := True\<rparr>\<rparr>))
      else if command = CMD_DIGITALREAD then
        (let st1 = hwCall (DigitalRead pn) st
         in Returns (st1\<lparr>result := (result st1)\<lparr>outputValue := digitalRead env pn,
                                                  hasOutput := True\<rparr>\<rparr>))
      else if command = CMD_DIGITALWRITE then
        (case resetPWM pn st of
           None \<Rightarrow> OutOfBounds
         | Some st1 \<Rightarrow> Returns (hwCall (DigitalWrite pn (commandBuffer st1 ! 2)) st1))
      else if command = CMD_ANALOGREAD then
        (let st1 = hwCall (AnalogRead pn) st
         in Returns (st1\<lparr>result := (result st1)\<lparr>outputValue := analogRead env pn,
                                                  hasOutput := True,
                                                  isTwoByteOutput := True\<rparr>\<rparr>))
      else if command = CMD_ANALOGWRITE then
        (case setPWM (millis env) pn (commandBuffer st ! 2) st of
           None \<Rightarrow> OutOfBounds
         | Some (ok, st1) \<Rightarrow> Returns (st1\<lparr>result := (result st1)\<lparr>hasError := \<not> ok\<rparr>\<rparr>))
      else if command = CMD_RESET then
        Restarts (sendResponse (st\<lparr>result := emptyResult\<rparr>))
      else if command = CMD_PINMODE then
        Returns (hwCall (PinMode pn (commandBuffer st ! 2)) st)
      else Returns (st\<lparr>result := (result st)\<lparr>hasError := True\<rparr>\<rparr>))"

definition executeBufferedCommand :: "environment \<Rightarrow> firmware \<Rightarrow> firmware exec" where
  "executeBufferedCommand env st0 =
     (let st = st0\<lparr>result := emptyResult\<rparr>;
          command = commandBuffer st ! 0
      in if command \<noteq> CMD_NOP \<and> command \<noteq> CMD_RESET \<and> command \<noteq> CMD_INFO then
           (let (pn, error) = readPin (A0 env) (commandBuffer st ! 1) False;
                st1 = st\<lparr>result := (result st)\<lparr>hasError := error\<rparr>\<rparr>
            in if error then Returns st1 else executeSwitch env command pn st1)
         else executeSwitch env command 0 st)"

section \<open>main.cpp\<close>

text \<open>The loop that moves the available serial bytes into the command buffer.\<close>

function readSerial :: "firmware \<Rightarrow> firmware option" where
  "readSerial st =
     (if serialIn st \<noteq> [] \<and> bufferIndex st < BUFFER_SIZE then
        (if 0 \<le> bufferIndex st \<and> nat (bufferIndex st) < length (commandBuffer st) then
           readSerial
             (st\<lparr>commandBuffer := (commandBuffer st)[nat (bufferIndex st) := hd (serialIn st)],
                 bufferIndex := bufferIndex st + 1,
                 serialIn := tl (serialIn st)\<rparr>)
         else None)
      else Some st)"
  by pat_completeness auto
termination
  by (relation "measure (\<lambda>st. length (serialIn st))") auto

declare readSerial.simps [simp del]

text \<open>The loop that moves the bytes after the command to the start of the buffer.\<close>

function shiftBuffer :: "int \<Rightarrow> int \<Rightarrow> firmware \<Rightarrow> firmware option" where
  "shiftBuffer commandLength i st =
     (if i < bufferIndex st then
        (if 0 \<le> i - commandLength \<and> 0 \<le> i \<and> nat i < length (commandBuffer st)
            \<and> nat (i - commandLength) < length (commandBuffer st) then
           shiftBuffer commandLength (i + 1)
             (st\<lparr>commandBuffer :=
                   (commandBuffer st)[nat (i - commandLength) := commandBuffer st ! nat i]\<rparr>)
         else None)
      else Some st)"
  by pat_completeness auto
termination
  by (relation "measure (\<lambda>(commandLength, i, st). nat (bufferIndex st - i))") auto

declare shiftBuffer.simps [simp del]

text \<open>
  One pass of \<open>loop\<close>. \<open>now\<close> is the clock read by \<open>updateSoftPWM\<close>, \<open>env\<close> the environment
  during the dispatch.
\<close>

definition loop :: "ulong \<Rightarrow> environment \<Rightarrow> firmware \<Rightarrow> firmware exec" where
  "loop now env st =
     (case updateSoftPWM now st of
        None \<Rightarrow> OutOfBounds
      | Some st1 \<Rightarrow>
          (case readSerial st1 of
             None \<Rightarrow> OutOfBounds
           | Some st2 \<Rightarrow>
               if hasCompleteCommand st2 then
                 (case executeBufferedCommand env st2 of
                    Returns st3 \<Rightarrow>
                      (let st4 = sendResponse st3;
                           command = commandBuffer st4 ! 0;
                           commandLength = 1 + getRequiredArgs command
                       in case shiftBuffer commandLength commandLength st4 of
                            None \<Rightarrow> OutOfBounds
                          | Some st5 \<Rightarrow>
                              Returns (st5\<lparr>bufferIndex := bufferIndex st5 - commandLength\<rparr>))
                  | OutOfBounds \<Rightarrow> OutOfBounds
                  | Restarts s \<Rightarrow> Restarts s)
               else Returns st2))"

text \<open>
  The Arduino core calls \<open>loop\<close> again and again: \<open>run\<close> is a finite number of passes,
  each with its clock and environment.
\<close>

fun run :: "(ulong \<times> environment) list \<Rightarrow> firmware \<Rightarrow> firmware exec" where
  "run [] st = Returns st"
| "run ((now, env) # ps) st =
     (case loop now env st of
        Returns st' \<Rightarrow> run ps st'
      | OutOfBounds \<Rightarrow> OutOfBounds
      | Restarts s \<Rightarrow> Restarts s)"

section \<open>Notions used by the properties\<close>

text \<open>Two states that differ in the slot trace only.\<close>

definition sameButTrace :: "firmware \<Rightarrow> firmware \<Rightarrow> bool" where
  "sameButTrace st st' \<longleftrightarrow>
     softPWM st' = softPWM st \<and> softPWMCount st' = softPWMCount st
     \<and> commandBuffer st' = commandBuffer st \<and> bufferIndex st' = bufferIndex st
     \<and> result st' = result st \<and> hw st' = hw st \<and> serialOut st' = serialOut st
     \<and> serialIn st' = serialIn st"

text \<open>Two states that agree on everything the scheduler does not own.\<close>

definition sameOutsidePWM :: "firmware \<Rightarrow> firmware \<Rightarrow> bool" where
  "sameOutsidePWM st st' \<longleftrightarrow>
     commandBuffer st' = commandBuffer st \<and> bufferIndex st' = bufferIndex st
     \<and> result st' = result st \<and> serialOut st' = serialOut st \<and> serialIn st' = serialIn st"

text \<open>
  One channel under one call of \<open>updateSoftPWM\<close> at time \<open>now\<close>, in the words of the
  specification: the new channel and the pin writes. Period and on-time are natural
  numbers; the elapsed time is the difference of the two 32-bit timestamps.
\<close>

definition pwmStep_spec :: "ulong \<Rightarrow> SoftPWM \<Rightarrow> SoftPWM \<times> hw_event list" where
  "pwmStep_spec now ch =
     (let period = 1000 div SOFT_PWM_FREQ;
          onTime = period * unat (dutyCycle ch) div 255;
          elapsed = unat (now - lastToggle ch)
      in if \<not> enabled ch then (ch, [])
         else if state ch \<and> elapsed \<ge> onTime then
           (ch\<lparr>state := False\<rparr>, [DigitalWrite (pin ch) LOW])
         else if \<not> state ch \<and> elapsed \<ge> period then
           (ch\<lparr>state := True, lastToggle := now\<rparr>, [DigitalWrite (pin ch) HIGH])
         else (ch, []))"

text \<open>
  The table invariant: the table has its declared length, the count does not exceed it,
  and every slot access so far was below the count, which was within the capacity.
\<close>

definition tableInv :: "firmware \<Rightarrow> bool" where
  "tableInv st \<longleftrightarrow>
     length (softPWM st) = MAX_SOFT_PWM \<and> unat (softPWMCount st) \<le> MAX_SOFT_PWM
     \<and> list_all (\<lambda>(j, c). j < c \<and> c \<le> MAX_SOFT_PWM) (slotTrace st)"

text \<open>
  The states reachable from a state with \<open>softPWMCount = 0\<close> by calls of \<open>setPWM\<close>,
  \<open>resetPWM\<close> and \<open>updateSoftPWM\<close>.
\<close>

inductive reachable :: "firmware \<Rightarrow> bool" where
  init: "softPWMCount st = 0 \<Longrightarrow> length (softPWM st) = MAX_SOFT_PWM \<Longrightarrow> slotTrace st = []
         \<Longrightarrow> reachable st"
| set: "reachable st \<Longrightarrow> setPWM now pn duty st = Some (ok, st') \<Longrightarrow> reachable st'"
| reset: "reachable st \<Longrightarrow> resetPWM pn st = Some st' \<Longrightarrow> reachable st'"
| update: "reachable st \<Longrightarrow> updateSoftPWM now st = Some st' \<Longrightarrow> reachable st'"

text \<open>A sequence of \<open>setPWM\<close> calls, each with its clock, pin and duty cycle.\<close>

fun setPWM_calls :: "(ulong \<times> byte \<times> byte) list \<Rightarrow> firmware \<Rightarrow> (bool list \<times> firmware) option" where
  "setPWM_calls [] st = Some ([], st)"
| "setPWM_calls ((now, pn, duty) # cs) st =
     (case setPWM now pn duty st of
        None \<Rightarrow> None
      | Some (ok, st') \<Rightarrow>
          (case setPWM_calls cs st' of
             None \<Rightarrow> None
           | Some (oks, st'') \<Rightarrow> Some (ok # oks, st'')))"

text \<open>
  The bytes that are buffered once \<open>loop\<close> has read the available serial input: the
  buffered prefix of the command buffer, then as many input bytes as fit.
\<close>

definition buffered :: "firmware \<Rightarrow> byte list" where
  "buffered st =
     take (nat (bufferIndex st)) (commandBuffer st)
     @ take (min (length (serialIn st)) (nat (BUFFER_SIZE - bufferIndex st))) (serialIn st)"

section \<open>Concrete states\<close>

text \<open>
  The state at power-on: the globals are zero-initialised and \<open>setup\<close> sets
  \<open>softPWMCount\<close> to 0. \<open>env0\<close> is an environment of a board whose analog pins start at 14.
\<close>

definition powerOn :: firmware where
  "powerOn =
     \<lparr>softPWM = replicate MAX_SOFT_PWM
                  \<lparr>pin = 0, dutyCycle = 0, lastToggle = 0, state = False, enabled = False\<rparr>,
      softPWMCount = 0,
      commandBuffer = replicate (nat BUFFER_SIZE) 0,
      bufferIndex = 0,
      result = emptyResult,
      hw = [],
      serialOut = [],
      serialIn = [],
      slotTrace = []\<rparr>"

definition env0 :: environment where
  "env0 = \<lparr>A0 = 14, millis = 0, digitalRead = (\<lambda>_. 0), analogRead = (\<lambda>_. 1023),
            getFreeRam = 1500\<rparr>"

text \<open>A table with three running channels and a disabled one.\<close>

definition pwmDemo :: firmware where
  "pwmDemo = powerOn
     \<lparr>softPWM :=
        [\<lparr>pin = 2, dutyCycle = 128, lastToggle = 90, state = True, enabled = True\<rparr>,
         \<lparr>pin = 4, dutyCycle = 64, lastToggle = 70, state = False, enabled = True\<rparr>,
         \<lparr>pin = 7, dutyCycle = 200, lastToggle = 95, state = True, enabled = True\<rparr>,
         \<lparr>pin = 8, dutyCycle = 10, lastToggle = 0, state = True, enabled = False\<rparr>,
         \<lparr>pin = 0, dutyCycle = 0, lastToggle = 0, state = False, enabled = False\<rparr>,
         \<lparr>pin = 0, dutyCycle = 0, lastToggle = 0, state = False, enabled = False\<rparr>],
      softPWMCount := 4\<rparr>"

text \<open>A full table of enabled channels, and seven calls for seven distinct pins.\<close>

definition fullTable :: firmware where
  "fullTable = powerOn
     \<lparr>softPWM :=
        [\<lparr>pin = 2, dutyCycle = 10, lastToggle = 0, state = False, enabled = True\<rparr>,
         \<lparr>pin = 4, dutyCycle = 20, lastToggle = 0, state = False, enabled = True\<rparr>,
         \<lparr>pin = 7, dutyCycle = 30, lastToggle = 0, state = False, enabled = True\<rparr>,
         \<lparr>pin = 8, dutyCycle = 40, lastToggle = 0, state = False, enabled = True\<rparr>,
         \<lparr>pin = 12, dutyCycle = 50, lastToggle = 0, state = False, enabled = True\<rparr>,
         \<lparr>pin = 13, dutyCycle = 60, lastToggle = 0, state = False, enabled = True\<rparr>],
      softPWMCount := 6\<rparr>"

definition sevenCalls :: "(ulong \<times> byte \<times> byte) list" where
  "sevenCalls = [(0, 2, 1), (1, 4, 1), (2, 7, 1), (3, 8, 1), (4, 12, 1), (5, 13, 1), (6, 14, 1)]"

text \<open>
  A table in which pin 4 holds two enabled slots. It arises from \<open>setPWM\<close> on pin 2,
  \<open>setPWM\<close> on pin 4, \<open>resetPWM\<close> on pin 2 and \<open>setPWM\<close> on pin 4.
\<close>

definition idle :: SoftPWM where
  "idle = \<lparr>pin = 0, dutyCycle = 0, lastToggle = 0, state = False, enabled = False\<rparr>"

definition chan :: "byte \<Rightarrow> bool \<Rightarrow> SoftPWM" where
  "chan pn en = \<lparr>pin = pn, dutyCycle = 1, lastToggle = 0, state = False, enabled = en\<rparr>"

definition dupState :: firmware where
  "dupState = powerOn
     \<lparr>softPWM := [chan 4 True, chan 4 True, idle, idle, idle, idle],
      softPWMCount := 2,
      hw := [DigitalWrite 2 LOW, DigitalWrite 4 LOW, DigitalWrite 4 LOW],
      slotTrace := [(0, 1), (0, 1), (1, 2), (0, 2), (0, 2), (0, 2), (0, 2)]\<rparr>"

text \<open>
  The state at power-on with five commands available on the serial port: analog-write
  of pin 2, analog-write of pin 4, digital-write of pin 2, analog-write of pin 4 and
  digital-write of pin 4; and the state after five passes of \<open>loop\<close>.
\<close>

definition session :: firmware where
  "session = powerOn\<lparr>serialIn := [5, 2, 1, 5, 4, 1, 3, 2, 0, 5, 4, 1, 3, 4, 0]\<rparr>"

definition afterSession :: firmware where
  "afterSession = powerOn
     \<lparr>softPWM := [chan 4 False, chan 4 True, idle, idle, idle, idle],
      softPWMCount := 2,
      commandBuffer := [3, 4, 0, 3, 4, 0, 3, 4, 0, 3],
      hw := [DigitalWrite 2 LOW, DigitalWrite 4 LOW, DigitalWrite 2 0, DigitalWrite 4 LOW,
             DigitalWrite 4 0],
      serialOut := [SUCCESS_CODE, SUCCESS_CODE, SUCCESS_CODE, SUCCESS_CODE, SUCCESS_CODE],
      slotTrace := [(0, 1), (0, 1), (0, 1), (1, 2), (0, 2), (1, 2), (0, 2), (0, 2),
                    (0, 2), (1, 2), (0, 2), (0, 2), (0, 2), (1, 2), (0, 2), (0, 2)]\<rparr>"

text \<open>
  A digital-read of pin index 22 buffered; two bytes of a digital-write buffered and
  three more bytes available; and a reset command buffered with two bytes after it.
\<close>

definition badPin :: firmware where
  "badPin = powerOn\<lparr>commandBuffer := [2, 22, 0, 0, 0, 0, 0, 0, 0, 0], bufferIndex := 2\<rparr>"

definition fiveBuffered :: firmware where
  "fiveBuffered = powerOn\<lparr>commandBuffer := [3, 13, 0, 0, 0, 0, 0, 0, 0, 0], bufferIndex := 2,
                           serialIn := [1, 2, 5]\<rparr>"

definition resetBuffered :: firmware where
  "resetBuffered = powerOn\<lparr>commandBuffer := [7, 2, 5, 0, 0, 0, 0, 0, 0, 0], bufferIndex := 3\<rparr>"

section \<open>Properties\<close>

text \<open>
  C7. The required-operand count is 0 for the opcodes 0x0 (no-op), 0x1 (info) and 0x7
  (reset), 1 for 0x2 (digital-read) and 0x4 (analog-read), 2 for 0x3 (digital-write), 0x5
  (analog-write) and 0x6 (pin-mode), and 0 for every other byte value.
\<close>

theorem getRequiredArgs_table:
  "getRequiredArgs b =
     (if b = 0x0 \<or> b = 0x1 \<or> b = 0x7 then 0
      else if b = 0x2 \<or> b = 0x4 then 1
      else if b = 0x3 \<or> b = 0x5 \<or> b = 0x6 then 2
      else 0)"
  by (simp add: getRequiredArgs_def cmd_defs)

theorem getRequiredArgs_table_witness:
  "getRequiredArgs 0 = 0 \<and> getRequiredArgs 1 = 0 \<and> getRequiredArgs 7 = 0
   \<and> getRequiredArgs 2 = 1 \<and> getRequiredArgs 4 = 1
   \<and> getRequiredArgs 3 = 2 \<and> getRequiredArgs 5 = 2 \<and> getRequiredArgs 6 = 2
   \<and> getRequiredArgs 8 = 0 \<and> getRequiredArgs 255 = 0"
  using getRequiredArgs_table [of 0] getRequiredArgs_table [of 1] getRequiredArgs_table [of 7]
    getRequiredArgs_table [of 2] getRequiredArgs_table [of 4] getRequiredArgs_table [of 3]
    getRequiredArgs_table [of 5] getRequiredArgs_table [of 6] getRequiredArgs_table [of 8]
    getRequiredArgs_table [of 255]
  by simp

text \<open>
  C6. A command is recognised as complete exactly when the number of buffered bytes is
  strictly greater than the required-operand count of the first buffered byte. The
  witness is the example of the specification: opcode 0x3 is not complete with 2 bytes
  buffered and is complete with 3.
\<close>

theorem hasCompleteCommand_iff:
  "hasCompleteCommand st \<longleftrightarrow> bufferIndex st > getRequiredArgs (commandBuffer st ! 0)"
  by (auto simp: hasCompleteCommand_def getRequiredArgs_def)

theorem hasCompleteCommand_iff_witness:
  "\<not> hasCompleteCommand (powerOn\<lparr>commandBuffer := [3, 13, 1, 0, 0, 0, 0, 0, 0, 0], bufferIndex := 2\<rparr>)
   \<and> hasCompleteCommand (powerOn\<lparr>commandBuffer := [3, 13, 1, 0, 0, 0, 0, 0, 0, 0], bufferIndex := 3\<rparr>)"
  using hasCompleteCommand_iff [of "powerOn\<lparr>commandBuffer := [3, 13, 1, 0, 0, 0, 0, 0, 0, 0], bufferIndex := 2\<rparr>"]
    hasCompleteCommand_iff [of "powerOn\<lparr>commandBuffer := [3, 13, 1, 0, 0, 0, 0, 0, 0, 0], bufferIndex := 3\<rparr>"]
  by (simp add: getRequiredArgs_def cmd_defs)

text \<open>
  C9. Pin translation returns \<open>p\<close> itself below \<open>DIGITAL_PINS\<close>, the analog pin base plus
  \<open>p - DIGITAL_PINS\<close> from \<open>DIGITAL_PINS\<close> up to \<open>TOTAL_PINS\<close> (as a byte, and as a number
  when the analog pins of the board fit into a byte), in both cases with the error flag
  as it was, and sets the error flag from \<open>TOTAL_PINS\<close> on.
\<close>

theorem readPin_translation:
  "(p < DIGITAL_PINS \<longrightarrow> readPin a0 p e = (p, e))
   \<and> (DIGITAL_PINS \<le> p \<and> p < TOTAL_PINS \<longrightarrow>
        readPin a0 p e = (a0 + (p - DIGITAL_PINS), e)
        \<and> (unat a0 + (unat TOTAL_PINS - unat DIGITAL_PINS) \<le> 256 \<longrightarrow>
            unat (fst (readPin a0 p e)) = unat a0 + (unat p - unat DIGITAL_PINS)))
   \<and> (TOTAL_PINS \<le> p \<longrightarrow> snd (readPin a0 p e))"
proof (intro conjI impI)
  assume "p < DIGITAL_PINS"
  then show "readPin a0 p e = (p, e)" by (simp add: readPin_def)
next
  assume a: "DIGITAL_PINS \<le> p \<and> p < TOTAL_PINS"
  then show "readPin a0 p e = (a0 + (p - DIGITAL_PINS), e)"
    by (simp add: readPin_def not_less [symmetric])
next
  assume a: "DIGITAL_PINS \<le> p \<and> p < TOTAL_PINS"
    and b: "unat a0 + (unat TOTAL_PINS - unat DIGITAL_PINS) \<le> 256"
  from a have r: "fst (readPin a0 p e) = p - 14 + a0"
    by (simp add: readPin_def config_defs not_less [symmetric])
  from a have s: "unat (p - 14) = unat p - 14"
    by (simp add: unat_sub config_defs)
  from a have "unat p < 22"
    by (simp add: word_less_nat_alt config_defs)
  with s b have "unat (p - 14) + unat a0 < 2 ^ LENGTH(8)"
    by (simp add: config_defs)
  then have "unat (p - 14 + a0) = unat (p - 14) + unat a0"
    by (simp only: unat_add_lem)
  with s have "unat (p - 14 + a0) = unat a0 + (unat p - 14)"
    by simp
  with r show "unat (fst (readPin a0 p e)) = unat a0 + (unat p - unat DIGITAL_PINS)"
    by (simp add: config_defs)
next
  assume a: "TOTAL_PINS \<le> p"
  then have "\<not> p < TOTAL_PINS" "\<not> p < DIGITAL_PINS"
    by (simp_all add: config_defs word_le_nat_alt word_less_nat_alt)
  then show "snd (readPin a0 p e)" by (simp add: readPin_def)
qed

theorem readPin_translation_witness:
  "(5 < DIGITAL_PINS \<and> readPin 14 5 False = (5, False))
   \<and> ((DIGITAL_PINS \<le> 16 \<and> 16 < TOTAL_PINS) \<and> readPin 14 16 False = (16, False)
        \<and> unat (14 :: byte) + (unat TOTAL_PINS - unat DIGITAL_PINS) \<le> 256
        \<and> unat (fst (readPin 14 16 False)) = 16)
   \<and> (TOTAL_PINS \<le> 22 \<and> snd (readPin 14 22 False))"
  using readPin_translation [of 5 14 False] readPin_translation [of 16 14 False]
    readPin_translation [of 22 14 False]
  by (simp add: config_defs)

subsection \<open>The response encoder\<close>

lemma low_byte: "(ucast ((v :: uint16) AND 0xFF) :: byte) = word_of_nat (unat v mod 256)"
proof -
  have m: "(0xFF :: uint16) = mask 8" by (simp add: mask_eq_exp_minus_1)
  have "(ucast (v AND 0xFF) :: byte) = ucast v"
    unfolding m by (simp add: bit_eq_iff bit_simps)
  moreover have "unat (ucast v :: byte) = unat v mod 256"
    by (simp add: unsigned_ucast_eq take_bit_eq_mod)
  ultimately show ?thesis
    by (metis of_nat_unat ucast_id)
qed

lemma high_byte: "unat (drop_bit 8 (v :: uint16)) mod 256 = unat v div 256"
proof -
  have "unat (drop_bit 8 v) = unat v div 256"
    by (simp add: drop_bit_eq_div unat_div)
  moreover have "unat v div 256 < 256"
    using unsigned_less [of v, where 'a = nat] by simp
  ultimately show ?thesis by simp
qed

text \<open>
  C4. \<open>sendResponse\<close> changes nothing but the serial output, to which it appends: the
  single byte \<open>ERROR_CODE\<close> when \<open>hasError\<close> is set; otherwise the low byte of
  \<open>outputValue\<close> if \<open>hasOutput\<close> is set, then the high byte if \<open>isTwoByteOutput\<close> is set
  too, and always \<open>SUCCESS_CODE\<close> last. With neither \<open>hasOutput\<close> nor \<open>hasError\<close> the
  response is the single byte \<open>SUCCESS_CODE\<close>.
\<close>

theorem sendResponse_bytes:
  "sendResponse st =
     st\<lparr>serialOut := serialOut st @
        (if hasError (result st) then [ERROR_CODE]
         else (if hasOutput (result st) then
                 word_of_nat (unat (outputValue (result st)) mod 256) #
                 (if isTwoByteOutput (result st)
                  then [word_of_nat (unat (outputValue (result st)) div 256)] else [])
               else []) @ [SUCCESS_CODE])\<rparr>
   \<and> (\<not> hasOutput (result st) \<and> \<not> hasError (result st) \<longrightarrow>
        serialOut (sendResponse st) = serialOut st @ [SUCCESS_CODE])"
  unfolding sendResponse_def low_byte high_byte by (simp add: Serial_write_def Let_def high_byte)

theorem sendResponse_bytes_witness:
  "serialOut (sendResponse (powerOn\<lparr>result := \<lparr>hasError = False, hasOutput = True,
      isTwoByteOutput = True, outputValue = 1023\<rparr>\<rparr>)) = [0xFF, 0x03, 0xFF]
   \<and> serialOut (sendResponse (powerOn\<lparr>result := \<lparr>hasError = True, hasOutput = True,
      isTwoByteOutput = True, outputValue = 1023\<rparr>\<rparr>)) = [0xFE]
   \<and> (\<not> hasOutput (result powerOn) \<and> \<not> hasError (result powerOn))
   \<and> serialOut (sendResponse powerOn) = [0xFF]"
  using sendResponse_bytes [of "powerOn\<lparr>result := \<lparr>hasError = False, hasOutput = True,
      isTwoByteOutput = True, outputValue = 1023\<rparr>\<rparr>"]
    sendResponse_bytes [of "powerOn\<lparr>result := \<lparr>hasError = True, hasOutput = True,
      isTwoByteOutput = True, outputValue = 1023\<rparr>\<rparr>"]
    sendResponse_bytes [of powerOn]
  by (simp add: powerOn_def emptyResult_def SUCCESS_CODE_def ERROR_CODE_def)

subsection \<open>The validation gate of the dispatcher\<close>

text \<open>
  C5. For each pin-addressed opcode, a pin index at or above \<open>TOTAL_PINS\<close> makes the
  dispatch return with \<open>hasError\<close> set and everything but the result unchanged (no
  hardware call, no change to the channel table), and the response that follows is the
  single byte \<open>ERROR_CODE\<close>.
\<close>

theorem pin_out_of_range_error:
  assumes "commandBuffer st ! 0 \<in> {CMD_DIGITALREAD, CMD_DIGITALWRITE, CMD_ANALOGREAD,
             CMD_ANALOGWRITE, CMD_PINMODE}"
    and "TOTAL_PINS \<le> commandBuffer st ! 1"
  shows "executeBufferedCommand env st = Returns (st\<lparr>result := emptyResult\<lparr>hasError := True\<rparr>\<rparr>)
    \<and> sendResponse (st\<lparr>result := emptyResult\<lparr>hasError := True\<rparr>\<rparr>)
        = st\<lparr>result := emptyResult\<lparr>hasError := True\<rparr>, serialOut := serialOut st @ [ERROR_CODE]\<rparr>"
proof -
  from assms(2) have "\<not> commandBuffer st ! 1 < TOTAL_PINS" "\<not> commandBuffer st ! 1 < DIGITAL_PINS"
    by (simp_all add: config_defs word_le_nat_alt word_less_nat_alt)
  then have r: "readPin (A0 env) (commandBuffer st ! 1) False = (0, True)"
    by (simp add: readPin_def)
  from assms(1) have c: "commandBuffer st ! 0 \<noteq> CMD_NOP" "commandBuffer st ! 0 \<noteq> CMD_RESET"
    "commandBuffer st ! 0 \<noteq> CMD_INFO"
    by (auto simp: cmd_defs)
  show ?thesis
    using r c by (simp add: executeBufferedCommand_def sendResponse_def Serial_write_def)
qed

theorem pin_out_of_range_error_witness:
  "(commandBuffer badPin ! 0 = CMD_DIGITALREAD \<and> TOTAL_PINS \<le> commandBuffer badPin ! 1)
   \<and> executeBufferedCommand env0 badPin = Returns (badPin\<lparr>result := emptyResult\<lparr>hasError := True\<rparr>\<rparr>)
   \<and> hw badPin = []
   \<and> serialOut (sendResponse (badPin\<lparr>result := emptyResult\<lparr>hasError := True\<rparr>\<rparr>)) = [0xFE]"
  using pin_out_of_range_error [of badPin env0]
  by (simp add: cmd_defs config_defs powerOn_def badPin_def)

subsection \<open>The software-PWM scheduler\<close>

lemmas pwm_eval =
  setPWM_def setPWM_scan.simps resetPWM_def resetPWM_loop.simps updateSoftPWM_def
  updateSoftPWM_loop.simps updateSoftPWM_body_def readSlot_def updateSlot_def touch_def
  hwCall_def isHardwarePWMPin_def config_defs Let_def

lemma touch_fields [simp]:
  "softPWM (touch i st) = softPWM st"
  "softPWMCount (touch i st) = softPWMCount st"
  "commandBuffer (touch i st) = commandBuffer st"
  "bufferIndex (touch i st) = bufferIndex st"
  "result (touch i st) = result st"
  "hw (touch i st) = hw st"
  "serialOut (touch i st) = serialOut st"
  "serialIn (touch i st) = serialIn st"
  "slotTrace (touch i st) = slotTrace st @ [(unat i, unat (softPWMCount st))]"
  by (simp_all add: touch_def)

lemma hwCall_fields [simp]:
  "softPWM (hwCall e st) = softPWM st"
  "softPWMCount (hwCall e st) = softPWMCount st"
  "commandBuffer (hwCall e st) = commandBuffer st"
  "bufferIndex (hwCall e st) = bufferIndex st"
  "result (hwCall e st) = result st"
  "hw (hwCall e st) = hw st @ [e]"
  "serialOut (hwCall e st) = serialOut st"
  "serialIn (hwCall e st) = serialIn st"
  "slotTrace (hwCall e st) = slotTrace st"
  by (simp_all add: hwCall_def)

lemma byte_Suc: "(i :: byte) < c \<Longrightarrow> unat (i + 1) = Suc (unat i)"
  by unat_arith

lemma trace_weaken:
  "list_all (\<lambda>(j, c). j < c \<and> c = n) tr \<Longrightarrow> n \<le> m \<Longrightarrow> list_all (\<lambda>(j, c). j < c \<and> c \<le> m) tr"
  by (induction tr) auto

lemma setPWM_scan_result:
  "unat (softPWMCount st) \<le> length (softPWM st) \<Longrightarrow>
   \<exists>idx st'. setPWM_scan pn index st = Some (idx, st')
     \<and> sameButTrace st st'
     \<and> (\<exists>tr. slotTrace st' = slotTrace st @ tr
            \<and> list_all (\<lambda>(j, c). j < c \<and> c = unat (softPWMCount st)) tr)
     \<and> (index \<le> softPWMCount st \<longrightarrow> index \<le> idx \<and> idx \<le> softPWMCount st)
     \<and> (\<forall>j. unat index \<le> j \<and> j < unat idx \<longrightarrow>
            pin (softPWM st ! j) \<noteq> pn \<and> enabled (softPWM st ! j))
     \<and> (idx < softPWMCount st \<longrightarrow>
            pin (softPWM st ! unat idx) = pn \<or> \<not> enabled (softPWM st ! unat idx))"
proof (induction pn index st rule: setPWM_scan.induct)
  case (1 pn index st)
  show ?case
  proof (cases "index < softPWMCount st")
    case False
    then show ?thesis
      by (subst setPWM_scan.simps) (auto simp: sameButTrace_def)
  next
    case lt: True
    then have inb: "unat index < length (softPWM st)"
      using 1(2) by (simp add: word_less_nat_alt)
    let ?ch = "softPWM st ! unat index"
    have rd: "readSlot index st = Some (?ch, touch index st)"
      using inb by (simp add: readSlot_def)
    show ?thesis
    proof (cases "pin ?ch = pn \<or> \<not> enabled ?ch")
      case True
      then show ?thesis
        using lt rd
        by (subst setPWM_scan.simps) (auto simp: sameButTrace_def word_less_nat_alt)
    next
      case False
      from 1(1) [OF lt rd refl False] 1(2)
      obtain idx st' where
        r: "setPWM_scan pn (index + 1) (touch index st) = Some (idx, st')"
        and s: "sameButTrace (touch index st) st'"
        and t: "\<exists>tr. slotTrace st' = slotTrace (touch index st) @ tr
            \<and> list_all (\<lambda>(j, c). j < c \<and> c = unat (softPWMCount st)) tr"
        and b: "index + 1 \<le> softPWMCount st \<longrightarrow> index + 1 \<le> idx \<and> idx \<le> softPWMCount st"
        and p: "\<forall>j. unat (index + 1) \<le> j \<and> j < unat idx \<longrightarrow>
            pin (softPWM st ! j) \<noteq> pn \<and> enabled (softPWM st ! j)"
        and q: "idx < softPWMCount st \<longrightarrow>
            pin (softPWM st ! unat idx) = pn \<or> \<not> enabled (softPWM st ! unat idx)"
        by auto
      have suc: "unat (index + 1) = Suc (unat index)"
        using lt by (rule byte_Suc)
      have le1: "index + 1 \<le> softPWMCount st"
        using lt by (rule inc_le)
      have e: "setPWM_scan pn index st = Some (idx, st')"
        using lt rd False r by (subst setPWM_scan.simps) simp
      have "index \<le> idx"
        using b le1 suc by (simp add: word_le_nat_alt)
      moreover have "\<forall>j. unat index \<le> j \<and> j < unat idx \<longrightarrow>
            pin (softPWM st ! j) \<noteq> pn \<and> enabled (softPWM st ! j)"
        using p False suc by (metis le_antisym not_less_eq_eq)
      moreover have "\<exists>tr. slotTrace st' = slotTrace st @ tr
            \<and> list_all (\<lambda>(j, c). j < c \<and> c = unat (softPWMCount st)) tr"
        using t lt by (auto simp: word_less_nat_alt)
      ultimately show ?thesis
        using e s b le1 q by (auto simp: sameButTrace_def)
    qed
  qed
qed

lemma period_unat: "unat (of_nat (1000 div SOFT_PWM_FREQ) :: ulong) = 1000 div SOFT_PWM_FREQ"
  by (simp add: SOFT_PWM_FREQ_def)

lemma onTime_unat:
  "unat ((of_nat (1000 div SOFT_PWM_FREQ) :: ulong) * ucast (d :: byte) div 255)
   = 1000 div SOFT_PWM_FREQ * unat d div 255"
proof -
  have d: "unat (ucast d :: ulong) = unat d"
    by (simp add: unsigned_ucast_eq take_bit_nat_eq_self_iff)
       (rule less_trans [OF unsigned_less [of d, where 'a = nat]], simp)
  have "unat d < 256"
    using unsigned_less [of d, where 'a = nat] by simp
  then have "unat (20 :: ulong) * unat (ucast d :: ulong) < 2 ^ LENGTH(32)"
    by (simp add: d)
  then have "unat ((20 :: ulong) * ucast d) = 20 * unat d"
    by (simp only: unat_mult_lem [THEN iffD1] d) simp
  then show ?thesis
    by (simp add: SOFT_PWM_FREQ_def unat_div)
qed

lemma updateSoftPWM_body_spec:
  assumes "i < softPWMCount st" and "unat i < length (softPWM st)"
  shows "\<exists>st'. updateSoftPWM_body now i st = Some st'
     \<and> softPWM st' = (softPWM st)[unat i := fst (pwmStep_spec now (softPWM st ! unat i))]
     \<and> hw st' = hw st @ snd (pwmStep_spec now (softPWM st ! unat i))
     \<and> softPWMCount st' = softPWMCount st
     \<and> sameOutsidePWM st st'
     \<and> (\<exists>tr. slotTrace st' = slotTrace st @ tr
            \<and> list_all (\<lambda>(j, c). j < c \<and> c = unat (softPWMCount st)) tr)"
proof -
  let ?ch = "softPWM st ! unat i"
  have rd: "readSlot i st = Some (?ch, touch i st)"
    using assms(2) by (simp add: readSlot_def)
  have lt: "unat i < unat (softPWMCount st)"
    using assms(1) by (simp add: word_less_nat_alt)
  have upd: "\<And>f s. softPWM s = softPWM st \<Longrightarrow> updateSlot i f s =
      Some ((touch i s)\<lparr>softPWM := (softPWM st)[unat i := f ?ch]\<rparr>)"
    using assms(2) by (simp add: updateSlot_def)
  show ?thesis
    using lt
    by (simp add: updateSoftPWM_body_def rd upd pwmStep_spec_def Let_def sameOutsidePWM_def
        word_le_nat_alt onTime_unat period_unat list_update_same_conv [THEN iffD2])
qed

lemma updateSoftPWM_loop_spec:
  "unat (softPWMCount st) \<le> length (softPWM st) \<Longrightarrow>
   \<exists>st'. updateSoftPWM_loop now i st = Some st'
     \<and> length (softPWM st') = length (softPWM st)
     \<and> (\<forall>j < length (softPWM st). softPWM st' ! j =
           (if unat i \<le> j \<and> j < unat (softPWMCount st)
            then fst (pwmStep_spec now (softPWM st ! j)) else softPWM st ! j))
     \<and> hw st' = hw st @ concat (map (\<lambda>j. snd (pwmStep_spec now (softPWM st ! j)))
                                 [unat i ..< unat (softPWMCount st)])
     \<and> softPWMCount st' = softPWMCount st
     \<and> sameOutsidePWM st st'
     \<and> (\<exists>tr. slotTrace st' = slotTrace st @ tr
            \<and> list_all (\<lambda>(j, c). j < c \<and> c = unat (softPWMCount st)) tr)"
proof (induction now i st rule: updateSoftPWM_loop.induct)
  case (1 now i st)
  show ?case
  proof (cases "i < softPWMCount st")
    case False
    then have "unat (softPWMCount st) \<le> unat i"
      by (simp add: word_less_nat_alt)
    with False show ?thesis
      by (subst updateSoftPWM_loop.simps) (auto simp: sameOutsidePWM_def)
  next
    case lt: True
    then have ltn: "unat i < unat (softPWMCount st)"
      by (simp add: word_less_nat_alt)
    with 1(2) have inb: "unat i < length (softPWM st)"
      by simp
    from updateSoftPWM_body_spec [OF lt inb, of now]
    obtain st1 where
      b: "updateSoftPWM_body now i st = Some st1"
      and t1: "softPWM st1 = (softPWM st)[unat i := fst (pwmStep_spec now (softPWM st ! unat i))]"
      and h1: "hw st1 = hw st @ snd (pwmStep_spec now (softPWM st ! unat i))"
      and c1: "softPWMCount st1 = softPWMCount st"
      and o1: "sameOutsidePWM st st1"
      and tr1: "\<exists>tr. slotTrace st1 = slotTrace st @ tr
            \<and> list_all (\<lambda>(j, c). j < c \<and> c = unat (softPWMCount st)) tr"
      by blast
    have len1: "unat (softPWMCount st1) \<le> length (softPWM st1)"
      using 1(2) by (simp add: t1 c1)
    from 1(1) [OF lt b len1]
    obtain st' where
      r: "updateSoftPWM_loop now (i + 1) st1 = Some st'"
      and l2: "length (softPWM st') = length (softPWM st1)"
      and t2: "\<forall>j < length (softPWM st1). softPWM st' ! j =
           (if unat (i + 1) \<le> j \<and> j < unat (softPWMCount st1)
            then fst (pwmStep_spec now (softPWM st1 ! j)) else softPWM st1 ! j)"
      and h2: "hw st' = hw st1 @ concat (map (\<lambda>j. snd (pwmStep_spec now (softPWM st1 ! j)))
                                 [unat (i + 1) ..< unat (softPWMCount st1)])"
      and c2: "softPWMCount st' = softPWMCount st1"
      and o2: "sameOutsidePWM st1 st'"
      and tr2: "\<exists>tr. slotTrace st' = slotTrace st1 @ tr
            \<and> list_all (\<lambda>(j, c). j < c \<and> c = unat (softPWMCount st1)) tr"
      by blast
    have suc: "unat (i + 1) = Suc (unat i)"
      using lt by (rule byte_Suc)
    have e: "updateSoftPWM_loop now i st = Some st'"
      using lt b r by (subst updateSoftPWM_loop.simps) simp
    have tbl: "\<forall>j < length (softPWM st). softPWM st' ! j =
           (if unat i \<le> j \<and> j < unat (softPWMCount st)
            then fst (pwmStep_spec now (softPWM st ! j)) else softPWM st ! j)"
    proof (intro allI impI)
      fix j assume j: "j < length (softPWM st)"
      show "softPWM st' ! j =
           (if unat i \<le> j \<and> j < unat (softPWMCount st)
            then fst (pwmStep_spec now (softPWM st ! j)) else softPWM st ! j)"
      proof (cases "j = unat i")
        case True
        with t2 j ltn show ?thesis by (simp add: t1 c1 suc)
      next
        case False
        with t2 j show ?thesis by (auto simp: t1 c1 suc)
      qed
    qed
    have m: "map (\<lambda>j. snd (pwmStep_spec now (softPWM st1 ! j))) [Suc (unat i) ..< unat (softPWMCount st)]
        = map (\<lambda>j. snd (pwmStep_spec now (softPWM st ! j))) [Suc (unat i) ..< unat (softPWMCount st)]"
      by (rule map_cong) (simp_all add: t1)
    have hw: "hw st' = hw st @ concat (map (\<lambda>j. snd (pwmStep_spec now (softPWM st ! j)))
                                 [unat i ..< unat (softPWMCount st)])"
      using ltn by (simp add: h2 h1 c1 suc upt_conv_Cons m)
    have tr: "\<exists>tr. slotTrace st' = slotTrace st @ tr
            \<and> list_all (\<lambda>(j, c). j < c \<and> c = unat (softPWMCount st)) tr"
      using tr1 tr2 by (auto simp: c1)
    show ?thesis
      using e l2 tbl hw c2 c1 o1 o2 tr by (simp add: t1 sameOutsidePWM_def)
  qed
qed

text \<open>
  C1. One call of \<open>updateSoftPWM\<close> at time \<open>now\<close> treats every channel below
  \<open>softPWMCount\<close> as \<open>pwmStep_spec\<close> says, in index order: an enabled channel that is on
  with \<open>elapsed \<ge> onTime\<close> has its pin written low and becomes off, \<open>lastToggle\<close>
  unchanged; otherwise an enabled channel that is off with \<open>elapsed \<ge> period\<close> has its
  pin written high, becomes on and gets \<open>lastToggle = now\<close>; every other channel is
  unchanged and writes nothing. Here \<open>period = 1000 div SOFT_PWM_FREQ\<close>,
  \<open>onTime = period * dutyCycle div 255\<close> and \<open>elapsed = now - lastToggle\<close> on 32-bit
  timestamps. Nothing else of the state changes.
\<close>

theorem updateSoftPWM_refines_spec:
  assumes "unat (softPWMCount st) \<le> length (softPWM st)"
  shows "\<exists>st'. updateSoftPWM now st = Some st'
     \<and> length (softPWM st') = length (softPWM st)
     \<and> (\<forall>j < length (softPWM st). softPWM st' ! j =
           (if j < unat (softPWMCount st)
            then fst (pwmStep_spec now (softPWM st ! j)) else softPWM st ! j))
     \<and> hw st' = hw st @ concat (map (\<lambda>j. snd (pwmStep_spec now (softPWM st ! j)))
                                 [0 ..< unat (softPWMCount st)])
     \<and> softPWMCount st' = softPWMCount st
     \<and> sameOutsidePWM st st'"
  using updateSoftPWM_loop_spec [OF assms, of now 0]
  by (auto simp: updateSoftPWM_def)

theorem updateSoftPWM_refines_spec_witness:
  "unat (softPWMCount pwmDemo) \<le> length (softPWM pwmDemo)
   \<and> (\<exists>st'. updateSoftPWM 100 pwmDemo = Some st'
        \<and> softPWM st' ! 0 = \<lparr>pin = 2, dutyCycle = 128, lastToggle = 90, state = False, enabled = True\<rparr>
        \<and> softPWM st' ! 1 = \<lparr>pin = 4, dutyCycle = 64, lastToggle = 100, state = True, enabled = True\<rparr>
        \<and> softPWM st' ! 2 = \<lparr>pin = 7, dutyCycle = 200, lastToggle = 95, state = True, enabled = True\<rparr>
        \<and> softPWM st' ! 3 = \<lparr>pin = 8, dutyCycle = 10, lastToggle = 0, state = True, enabled = False\<rparr>
        \<and> hw st' = [DigitalWrite 2 LOW, DigitalWrite 4 HIGH])"
proof -
  have h: "unat (softPWMCount pwmDemo) \<le> length (softPWM pwmDemo)"
    by (simp add: pwmDemo_def powerOn_def)
  from updateSoftPWM_refines_spec [OF h, of 100]
  obtain st' where
    r: "updateSoftPWM 100 pwmDemo = Some st'"
    and t: "\<forall>j < length (softPWM pwmDemo). softPWM st' ! j =
           (if j < unat (softPWMCount pwmDemo)
            then fst (pwmStep_spec 100 (softPWM pwmDemo ! j)) else softPWM pwmDemo ! j)"
    and w: "hw st' = hw pwmDemo @ concat (map (\<lambda>j. snd (pwmStep_spec 100 (softPWM pwmDemo ! j)))
                                 [0 ..< unat (softPWMCount pwmDemo)])"
    by blast
  have l: "length (softPWM pwmDemo) = 6" "unat (softPWMCount pwmDemo) = 4"
    by (simp_all add: pwmDemo_def powerOn_def)
  have "softPWM st' ! 0 = \<lparr>pin = 2, dutyCycle = 128, lastToggle = 90, state = False, enabled = True\<rparr>"
    using t [rule_format, of 0] by (simp add: l) (simp add: pwmDemo_def pwmStep_spec_def SOFT_PWM_FREQ_def)
  moreover have "softPWM st' ! 1 = \<lparr>pin = 4, dutyCycle = 64, lastToggle = 100, state = True, enabled = True\<rparr>"
    using t [rule_format, of 1] by (simp add: l) (simp add: pwmDemo_def pwmStep_spec_def SOFT_PWM_FREQ_def)
  moreover have "softPWM st' ! 2 = \<lparr>pin = 7, dutyCycle = 200, lastToggle = 95, state = True, enabled = True\<rparr>"
    using t [rule_format, of 2] by (simp add: l) (simp add: pwmDemo_def pwmStep_spec_def SOFT_PWM_FREQ_def)
  moreover have "softPWM st' ! 3 = \<lparr>pin = 8, dutyCycle = 10, lastToggle = 0, state = True, enabled = False\<rparr>"
    using t [rule_format, of 3] by (simp add: l) (simp add: pwmDemo_def pwmStep_spec_def SOFT_PWM_FREQ_def)
  moreover have "hw st' = [DigitalWrite 2 LOW, DigitalWrite 4 HIGH]"
    unfolding w l by (simp add: pwmDemo_def powerOn_def pwmStep_spec_def SOFT_PWM_FREQ_def upt_rec)
  ultimately show ?thesis
    using h r by simp
qed

subsection \<open>The capacity of the channel table\<close>

lemma resetPWM_loop_result:
  "unat (softPWMCount st) \<le> length (softPWM st) \<Longrightarrow>
   \<exists>st'. resetPWM_loop pn i st = Some st'
     \<and> length (softPWM st') = length (softPWM st)
     \<and> softPWMCount st' = softPWMCount st
     \<and> hw st' = hw st
     \<and> sameOutsidePWM st st'
     \<and> (\<exists>tr. slotTrace st' = slotTrace st @ tr
            \<and> list_all (\<lambda>(j, c). j < c \<and> c = unat (softPWMCount st)) tr)"
proof (induction pn i st rule: resetPWM_loop.induct)
  case (1 pn i st)
  show ?case
  proof (cases "i < softPWMCount st")
    case False
    then show ?thesis
      by (subst resetPWM_loop.simps) (simp add: sameOutsidePWM_def)
  next
    case lt: True
    then have ltn: "unat i < unat (softPWMCount st)"
      by (simp add: word_less_nat_alt)
    with 1(2) have inb: "unat i < length (softPWM st)"
      by simp
    let ?ch = "softPWM st ! unat i"
    have rd: "readSlot i st = Some (?ch, touch i st)"
      using inb by (simp add: readSlot_def)
    show ?thesis
    proof (cases "pin ?ch = pn")
      case True
      then show ?thesis
        using lt rd inb ltn
        by (subst resetPWM_loop.simps) (simp add: updateSlot_def sameOutsidePWM_def)
    next
      case False
      from 1(1) [OF lt rd refl False] 1(2)
      obtain st' where
        r: "resetPWM_loop pn (i + 1) (touch i st) = Some st'"
        and l: "length (softPWM st') = length (softPWM st)"
        and c: "softPWMCount st' = softPWMCount st"
        and h: "hw st' = hw st"
        and o: "sameOutsidePWM (touch i st) st'"
        and t: "\<exists>tr. slotTrace st' = slotTrace (touch i st) @ tr
            \<and> list_all (\<lambda>(j, c). j < c \<and> c = unat (softPWMCount st)) tr"
        by auto
      have e: "resetPWM_loop pn i st = Some st'"
        using lt rd False r by (subst resetPWM_loop.simps) simp
      have "\<exists>tr. slotTrace st' = slotTrace st @ tr
            \<and> list_all (\<lambda>(j, c). j < c \<and> c = unat (softPWMCount st)) tr"
        using t ltn by auto
      then show ?thesis
        using e l c h o by (simp add: sameOutsidePWM_def)
    qed
  qed
qed

lemma setPWM_soft:
  assumes hwp: "\<not> isHardwarePWMPin pn"
    and len: "length (softPWM st) = MAX_SOFT_PWM"
    and cnt: "unat (softPWMCount st) \<le> MAX_SOFT_PWM"
  shows "\<exists>idx tr.
       idx \<le> softPWMCount st
     \<and> (\<forall>j < unat idx. pin (softPWM st ! j) \<noteq> pn \<and> enabled (softPWM st ! j))
     \<and> (idx < softPWMCount st \<longrightarrow>
            pin (softPWM st ! unat idx) = pn \<or> \<not> enabled (softPWM st ! unat idx))
     \<and> list_all (\<lambda>(j, c). j < c \<and> c = unat (softPWMCount st)) tr
     \<and> setPWM now pn duty st =
         (if unat idx \<ge> MAX_SOFT_PWM then
            Some (False, st\<lparr>hw := hw st @ [DigitalWrite pn LOW], slotTrace := slotTrace st @ tr\<rparr>)
          else if duty = 0 then
            (if idx < softPWMCount st then
               Some (True, st\<lparr>hw := hw st @ [DigitalWrite pn LOW],
                       softPWM := (softPWM st)[unat idx := (softPWM st ! unat idx)\<lparr>enabled := False\<rparr>],
                       slotTrace := slotTrace st @ tr @ [(unat idx, unat (softPWMCount st))]\<rparr>)
             else
               Some (True, st\<lparr>hw := hw st @ [DigitalWrite pn LOW], slotTrace := slotTrace st @ tr\<rparr>))
          else
            Some (True, st\<lparr>hw := hw st @ [DigitalWrite pn LOW],
                    softPWMCount := (if idx = softPWMCount st then softPWMCount st + 1
                                     else softPWMCount st),
                    softPWM := (softPWM st)[unat idx := \<lparr>pin = pn, dutyCycle = duty,
                                  lastToggle = now, state = False, enabled = True\<rparr>],
                    slotTrace := slotTrace st @ tr @
                      [(unat idx, unat (if idx = softPWMCount st then softPWMCount st + 1
                                        else softPWMCount st))]\<rparr>))"
proof -
  let ?st0 = "hwCall (DigitalWrite pn LOW) st"
  have "unat (softPWMCount ?st0) \<le> length (softPWM ?st0)"
    using len cnt by simp
  from setPWM_scan_result [OF this, of pn 0]
  obtain idx st1 tr where
    r: "setPWM_scan pn 0 ?st0 = Some (idx, st1)"
    and s: "sameButTrace ?st0 st1"
    and t: "slotTrace st1 = slotTrace st @ tr"
      "list_all (\<lambda>(j, c). j < c \<and> c = unat (softPWMCount st)) tr"
    and b: "idx \<le> softPWMCount st"
    and p: "\<forall>j < unat idx. pin (softPWM st ! j) \<noteq> pn \<and> enabled (softPWM st ! j)"
    and q: "idx < softPWMCount st \<longrightarrow>
            pin (softPWM st ! unat idx) = pn \<or> \<not> enabled (softPWM st ! unat idx)"
    by auto
  have st1: "st1 = st\<lparr>hw := hw st @ [DigitalWrite pn LOW], slotTrace := slotTrace st @ tr\<rparr>"
    using s t by (simp add: sameButTrace_def)
  have "setPWM now pn duty st =
         (if unat idx \<ge> MAX_SOFT_PWM then
            Some (False, st\<lparr>hw := hw st @ [DigitalWrite pn LOW], slotTrace := slotTrace st @ tr\<rparr>)
          else if duty = 0 then
            (if idx < softPWMCount st then
               Some (True, st\<lparr>hw := hw st @ [DigitalWrite pn LOW],
                       softPWM := (softPWM st)[unat idx := (softPWM st ! unat idx)\<lparr>enabled := False\<rparr>],
                       slotTrace := slotTrace st @ tr @ [(unat idx, unat (softPWMCount st))]\<rparr>)
             else
               Some (True, st\<lparr>hw := hw st @ [DigitalWrite pn LOW], slotTrace := slotTrace st @ tr\<rparr>))
          else
            Some (True, st\<lparr>hw := hw st @ [DigitalWrite pn LOW],
                    softPWMCount := (if idx = softPWMCount st then softPWMCount st + 1
                                     else softPWMCount st),
                    softPWM := (softPWM st)[unat idx := \<lparr>pin = pn, dutyCycle = duty,
                                  lastToggle = now, state = False, enabled = True\<rparr>],
                    slotTrace := slotTrace st @ tr @
                      [(unat idx, unat (if idx = softPWMCount st then softPWMCount st + 1
                                        else softPWMCount st))]\<rparr>))"
    using hwp len by (simp add: setPWM_def r st1 updateSlot_def touch_def Let_def)
  then show ?thesis
    using b p q t by blast
qed

lemma setPWM_full:
  assumes hwp: "\<not> isHardwarePWMPin pn"
    and len: "length (softPWM st) = MAX_SOFT_PWM"
    and cnt: "unat (softPWMCount st) = MAX_SOFT_PWM"
    and all: "list_all (\<lambda>ch. pin ch \<noteq> pn \<and> enabled ch) (softPWM st)"
  shows "\<exists>st'. setPWM now pn duty st = Some (False, st')
     \<and> softPWM st' = softPWM st \<and> softPWMCount st' = softPWMCount st
     \<and> hw st' = hw st @ [DigitalWrite pn LOW]
     \<and> sameOutsidePWM st st'"
proof -
  from cnt have cnt': "unat (softPWMCount st) \<le> MAX_SOFT_PWM"
    by simp
  from setPWM_soft [OF hwp len cnt', of now duty]
  obtain idx tr where
    b: "idx \<le> softPWMCount st"
    and q: "idx < softPWMCount st \<longrightarrow>
            pin (softPWM st ! unat idx) = pn \<or> \<not> enabled (softPWM st ! unat idx)"
    and e: "setPWM now pn duty st =
         (if unat idx \<ge> MAX_SOFT_PWM then
            Some (False, st\<lparr>hw := hw st @ [DigitalWrite pn LOW], slotTrace := slotTrace st @ tr\<rparr>)
          else if duty = 0 then
            (if idx < softPWMCount st then
               Some (True, st\<lparr>hw := hw st @ [DigitalWrite pn LOW],
                       softPWM := (softPWM st)[unat idx := (softPWM st ! unat idx)\<lparr>enabled := False\<rparr>],
                       slotTrace := slotTrace st @ tr @ [(unat idx, unat (softPWMCount st))]\<rparr>)
             else
               Some (True, st\<lparr>hw := hw st @ [DigitalWrite pn LOW], slotTrace := slotTrace st @ tr\<rparr>))
          else
            Some (True, st\<lparr>hw := hw st @ [DigitalWrite pn LOW],
                    softPWMCount := (if idx = softPWMCount st then softPWMCount st + 1
                                     else softPWMCount st),
                    softPWM := (softPWM st)[unat idx := \<lparr>pin = pn, dutyCycle = duty,
                                  lastToggle = now, state = False, enabled = True\<rparr>],
                    slotTrace := slotTrace st @ tr @
                      [(unat idx, unat (if idx = softPWMCount st then softPWMCount st + 1
                                        else softPWMCount st))]\<rparr>))"
    by blast
  have "\<not> idx < softPWMCount st"
  proof
    assume lt: "idx < softPWMCount st"
    then have "unat idx < length (softPWM st)"
      using len cnt by (simp add: word_less_nat_alt)
    with all have "pin (softPWM st ! unat idx) \<noteq> pn \<and> enabled (softPWM st ! unat idx)"
      by (simp add: list_all_length)
    with q lt show False by simp
  qed
  with b have "idx = softPWMCount st"
    by simp
  then show ?thesis
    using cnt by (simp add: e sameOutsidePWM_def)
qed

lemma setPWM_alloc:
  assumes hwp: "\<not> isHardwarePWMPin pn"
    and duty: "duty \<noteq> 0"
    and len: "length (softPWM st) = MAX_SOFT_PWM"
    and cnt: "unat (softPWMCount st) < MAX_SOFT_PWM"
    and all: "list_all (\<lambda>ch. pin ch \<noteq> pn \<and> enabled ch) (take (unat (softPWMCount st)) (softPWM st))"
  shows "\<exists>st'. setPWM now pn duty st = Some (True, st')
     \<and> softPWM st' = (softPWM st)[unat (softPWMCount st) :=
          \<lparr>pin = pn, dutyCycle = duty, lastToggle = now, state = False, enabled = True\<rparr>]
     \<and> unat (softPWMCount st') = Suc (unat (softPWMCount st))"
proof -
  from cnt have cnt': "unat (softPWMCount st) \<le> MAX_SOFT_PWM"
    by simp
  from setPWM_soft [OF hwp len cnt', of now duty]
  obtain idx tr where
    b: "idx \<le> softPWMCount st"
    and q: "idx < softPWMCount st \<longrightarrow>
            pin (softPWM st ! unat idx) = pn \<or> \<not> enabled (softPWM st ! unat idx)"
    and e: "setPWM now pn duty st =
         (if unat idx \<ge> MAX_SOFT_PWM then
            Some (False, st\<lparr>hw := hw st @ [DigitalWrite pn LOW], slotTrace := slotTrace st @ tr\<rparr>)
          else if duty = 0 then
            (if idx < softPWMCount st then
               Some (True, st\<lparr>hw := hw st @ [DigitalWrite pn LOW],
                       softPWM := (softPWM st)[unat idx := (softPWM st ! unat idx)\<lparr>enabled := False\<rparr>],
                       slotTrace := slotTrace st @ tr @ [(unat idx, unat (softPWMCount st))]\<rparr>)
             else
               Some (True, st\<lparr>hw := hw st @ [DigitalWrite pn LOW], slotTrace := slotTrace st @ tr\<rparr>))
          else
            Some (True, st\<lparr>hw := hw st @ [DigitalWrite pn LOW],
                    softPWMCount := (if idx = softPWMCount st then softPWMCount st + 1
                                     else softPWMCount st),
                    softPWM := (softPWM st)[unat idx := \<lparr>pin = pn, dutyCycle = duty,
                                  lastToggle = now, state = False, enabled = True\<rparr>],
                    slotTrace := slotTrace st @ tr @
                      [(unat idx, unat (if idx = softPWMCount st then softPWMCount st + 1
                                        else softPWMCount st))]\<rparr>))"
    by blast
  have "\<not> idx < softPWMCount st"
  proof
    assume lt: "idx < softPWMCount st"
    from all have "pin (softPWM st ! unat idx) \<noteq> pn \<and> enabled (softPWM st ! unat idx)"
      using lt len cnt by (auto simp: list_all_length word_less_nat_alt)
    with q lt show False by (simp add: word_less_nat_alt)
  qed
  with b have i: "idx = softPWMCount st"
    by simp
  have "softPWMCount st < 6"
    using cnt by (simp add: word_less_nat_alt MAX_SOFT_PWM_def)
  then have "unat (softPWMCount st + 1) = Suc (unat (softPWMCount st))"
    by (rule byte_Suc)
  then show ?thesis
    using cnt duty by (simp add: e i)
qed

lemma setPWM_calls_fill:
  "length (softPWM st) = MAX_SOFT_PWM \<Longrightarrow>
   unat (softPWMCount st) + length cs = Suc MAX_SOFT_PWM \<Longrightarrow>
   cs \<noteq> [] \<Longrightarrow>
   list_all (\<lambda>ch. enabled ch \<and> pin ch \<notin> set (map (\<lambda>(now, pn, duty). pn) cs))
     (take (unat (softPWMCount st)) (softPWM st)) \<Longrightarrow>
   distinct (map (\<lambda>(now, pn, duty). pn) cs) \<Longrightarrow>
   list_all (\<lambda>(now, pn, duty). \<not> isHardwarePWMPin pn \<and> duty \<noteq> 0) cs \<Longrightarrow>
   \<exists>st'. setPWM_calls cs st
     = Some (replicate (MAX_SOFT_PWM - unat (softPWMCount st)) True @ [False], st')"
proof (induction cs arbitrary: st)
  case Nil
  then show ?case by simp
next
  case (Cons c cs)
  obtain now pn duty where c: "c = (now, pn, duty)"
    by (cases c) auto
  from Cons.prems(6) have hwp: "\<not> isHardwarePWMPin pn" and duty: "duty \<noteq> 0"
    by (simp_all add: c)
  show ?case
  proof (cases "cs = []")
    case True
    with Cons.prems(2) have cnt: "unat (softPWMCount st) = MAX_SOFT_PWM"
      by simp
    from Cons.prems(4) have "list_all (\<lambda>ch. pin ch \<noteq> pn \<and> enabled ch) (softPWM st)"
      using Cons.prems(1) cnt by (auto simp: c list_all_iff)
    from setPWM_full [OF hwp Cons.prems(1) cnt this, of now duty]
    show ?thesis
      using True cnt by (auto simp: c)
  next
    case False
    with Cons.prems(2) have cnt: "unat (softPWMCount st) < MAX_SOFT_PWM"
      by (cases cs) auto
    from Cons.prems(4)
    have "list_all (\<lambda>ch. pin ch \<noteq> pn \<and> enabled ch) (take (unat (softPWMCount st)) (softPWM st))"
      by (auto simp: c list_all_iff)
    from setPWM_alloc [OF hwp duty Cons.prems(1) cnt this, of now]
    obtain st1 where
      r: "setPWM now pn duty st = Some (True, st1)"
      and t: "softPWM st1 = (softPWM st)[unat (softPWMCount st) :=
          \<lparr>pin = pn, dutyCycle = duty, lastToggle = now, state = False, enabled = True\<rparr>]"
      and n: "unat (softPWMCount st1) = Suc (unat (softPWMCount st))"
      by blast
    have l1: "length (softPWM st1) = MAX_SOFT_PWM"
      using Cons.prems(1) by (simp add: t)
    have n1: "unat (softPWMCount st1) + length cs = Suc MAX_SOFT_PWM"
      using Cons.prems(2) by (simp add: n)
    have tk: "take (unat (softPWMCount st1)) (softPWM st1)
        = take (unat (softPWMCount st)) (softPWM st)
          @ [\<lparr>pin = pn, dutyCycle = duty, lastToggle = now, state = False, enabled = True\<rparr>]"
      using cnt Cons.prems(1) by (simp add: n t take_Suc_conv_app_nth)
    have a1: "list_all (\<lambda>ch. enabled ch \<and> pin ch \<notin> set (map (\<lambda>(now, pn, duty). pn) cs))
        (take (unat (softPWMCount st1)) (softPWM st1))"
      using Cons.prems(4) Cons.prems(5) by (auto simp: tk c list_all_iff)
    have d1: "distinct (map (\<lambda>(now, pn, duty). pn) cs)"
      using Cons.prems(5) by simp
    have h1: "list_all (\<lambda>(now, pn, duty). \<not> isHardwarePWMPin pn \<and> duty \<noteq> 0) cs"
      using Cons.prems(6) by simp
    from Cons.IH [OF l1 n1 False a1 d1 h1]
    obtain st' where
      "setPWM_calls cs st1 = Some (replicate (MAX_SOFT_PWM - unat (softPWMCount st1)) True @ [False], st')"
      by blast
    moreover have "MAX_SOFT_PWM - unat (softPWMCount st) = Suc (MAX_SOFT_PWM - unat (softPWMCount st1))"
      using cnt n by simp
    ultimately show ?thesis
      by (simp add: c r)
  qed
qed

text \<open>
  C3, as stated, fails: with a full table of enabled channels for other pins, \<open>setPWM\<close>
  on pin 14 returns failure after it has written the pin low.
\<close>

theorem setPWM_full_table_side_effect:
  "\<not> isHardwarePWMPin 14 \<and> (1 :: byte) \<noteq> 0
   \<and> unat (softPWMCount fullTable) = MAX_SOFT_PWM
   \<and> list_all (\<lambda>ch. pin ch \<noteq> 14 \<and> enabled ch) (softPWM fullTable)
   \<and> setPWM 0 14 1 fullTable
       = Some (False, fullTable\<lparr>hw := [DigitalWrite 14 LOW],
                 slotTrace := [(0, 6), (1, 6), (2, 6), (3, 6), (4, 6), (5, 6)]\<rparr>)
   \<and> hw fullTable = []"
  by (simp add: fullTable_def powerOn_def pwm_eval LOW_def)

text \<open>
  C3, amended. For a pin without hardware PWM and a nonzero duty cycle, when the table
  holds \<open>MAX_SOFT_PWM\<close> entries, none for this pin and none disabled, \<open>setPWM\<close> returns
  failure; the channel table, the count and everything outside the scheduler are
  unchanged, and its one effect is the write of \<open>LOW\<close> to the pin that precedes the scan.
  Moreover, \<open>MAX_SOFT_PWM + 1\<close> calls with nonzero duty for distinct pins without
  hardware PWM, from a state with \<open>softPWMCount = 0\<close>, succeed \<open>MAX_SOFT_PWM\<close> times and
  then fail.
\<close>

theorem setPWM_table_full:
  "(\<not> isHardwarePWMPin pn \<and> duty \<noteq> 0 \<and> length (softPWM st) = MAX_SOFT_PWM
      \<and> unat (softPWMCount st) = MAX_SOFT_PWM
      \<and> list_all (\<lambda>ch. pin ch \<noteq> pn \<and> enabled ch) (softPWM st)
    \<longrightarrow> (\<exists>st'. setPWM now pn duty st = Some (False, st')
           \<and> softPWM st' = softPWM st \<and> softPWMCount st' = softPWMCount st
           \<and> hw st' = hw st @ [DigitalWrite pn LOW]
           \<and> sameOutsidePWM st st'))
   \<and> (softPWMCount st0 = 0 \<and> length (softPWM st0) = MAX_SOFT_PWM
      \<and> length cs = MAX_SOFT_PWM + 1
      \<and> distinct (map (\<lambda>(now, pn, duty). pn) cs)
      \<and> list_all (\<lambda>(now, pn, duty). \<not> isHardwarePWMPin pn \<and> duty \<noteq> 0) cs
    \<longrightarrow> (\<exists>st'. setPWM_calls cs st0 = Some (replicate MAX_SOFT_PWM True @ [False], st')))"
proof (intro conjI impI)
  assume "\<not> isHardwarePWMPin pn \<and> duty \<noteq> 0 \<and> length (softPWM st) = MAX_SOFT_PWM
      \<and> unat (softPWMCount st) = MAX_SOFT_PWM
      \<and> list_all (\<lambda>ch. pin ch \<noteq> pn \<and> enabled ch) (softPWM st)"
  then show "\<exists>st'. setPWM now pn duty st = Some (False, st')
           \<and> softPWM st' = softPWM st \<and> softPWMCount st' = softPWMCount st
           \<and> hw st' = hw st @ [DigitalWrite pn LOW]
           \<and> sameOutsidePWM st st'"
    using setPWM_full [of pn st now duty] by blast
next
  assume a: "softPWMCount st0 = 0 \<and> length (softPWM st0) = MAX_SOFT_PWM
      \<and> length cs = MAX_SOFT_PWM + 1
      \<and> distinct (map (\<lambda>(now, pn, duty). pn) cs)
      \<and> list_all (\<lambda>(now, pn, duty). \<not> isHardwarePWMPin pn \<and> duty \<noteq> 0) cs"
  then have "cs \<noteq> []" by auto
  with a setPWM_calls_fill [of st0 cs]
  show "\<exists>st'. setPWM_calls cs st0 = Some (replicate MAX_SOFT_PWM True @ [False], st')"
    by simp
qed

theorem setPWM_table_full_witness:
  "(\<not> isHardwarePWMPin 14 \<and> (1 :: byte) \<noteq> 0 \<and> length (softPWM fullTable) = MAX_SOFT_PWM
      \<and> unat (softPWMCount fullTable) = MAX_SOFT_PWM
      \<and> list_all (\<lambda>ch. pin ch \<noteq> 14 \<and> enabled ch) (softPWM fullTable))
   \<and> (\<exists>st'. setPWM 0 14 1 fullTable = Some (False, st')
           \<and> softPWM st' = softPWM fullTable \<and> softPWMCount st' = softPWMCount fullTable
           \<and> hw st' = [DigitalWrite 14 LOW])
   \<and> (softPWMCount powerOn = 0 \<and> length (softPWM powerOn) = MAX_SOFT_PWM
      \<and> length sevenCalls = MAX_SOFT_PWM + 1
      \<and> distinct (map (\<lambda>(now, pn, duty). pn) sevenCalls)
      \<and> list_all (\<lambda>(now, pn, duty). \<not> isHardwarePWMPin pn \<and> duty \<noteq> 0) sevenCalls)
   \<and> (\<exists>st'. setPWM_calls sevenCalls powerOn
          = Some ([True, True, True, True, True, True, False], st'))"
proof -
  have h1: "\<not> isHardwarePWMPin 14 \<and> (1 :: byte) \<noteq> 0 \<and> length (softPWM fullTable) = MAX_SOFT_PWM
      \<and> unat (softPWMCount fullTable) = MAX_SOFT_PWM
      \<and> list_all (\<lambda>ch. pin ch \<noteq> 14 \<and> enabled ch) (softPWM fullTable)"
    by (simp add: fullTable_def powerOn_def isHardwarePWMPin_def config_defs)
  have h2: "softPWMCount powerOn = 0 \<and> length (softPWM powerOn) = MAX_SOFT_PWM
      \<and> length sevenCalls = MAX_SOFT_PWM + 1
      \<and> distinct (map (\<lambda>(now, pn, duty). pn) sevenCalls)
      \<and> list_all (\<lambda>(now, pn, duty). \<not> isHardwarePWMPin pn \<and> duty \<noteq> 0) sevenCalls"
    by (simp add: powerOn_def sevenCalls_def isHardwarePWMPin_def config_defs)
  have r: "replicate MAX_SOFT_PWM True @ [False] = [True, True, True, True, True, True, False]"
    by (simp add: MAX_SOFT_PWM_def numeral_eq_Suc)
  have e: "hw fullTable = []"
    by (simp add: fullTable_def powerOn_def)
  from setPWM_table_full [of 14 1 fullTable 0 powerOn sevenCalls] h1 h2
  have "(\<exists>st'. setPWM 0 14 1 fullTable = Some (False, st')
           \<and> softPWM st' = softPWM fullTable \<and> softPWMCount st' = softPWMCount fullTable
           \<and> hw st' = hw fullTable @ [DigitalWrite 14 LOW]
           \<and> sameOutsidePWM fullTable st')
     \<and> (\<exists>st'. setPWM_calls sevenCalls powerOn = Some (replicate MAX_SOFT_PWM True @ [False], st'))"
    by blast
  then show ?thesis
    using h1 h2 unfolding r e by auto
qed

subsection \<open>The table invariant\<close>

lemma setPWM_inv:
  assumes inv: "tableInv st"
  shows "\<exists>r. setPWM now pn duty st = Some r \<and> tableInv (snd r)"
proof (cases "isHardwarePWMPin pn")
  case True
  then show ?thesis
    using inv by (auto simp: setPWM_def tableInv_def)
next
  case False
  from inv have len: "length (softPWM st) = MAX_SOFT_PWM"
    and cnt: "unat (softPWMCount st) \<le> MAX_SOFT_PWM"
    and tr0: "list_all (\<lambda>(j, c). j < c \<and> c \<le> MAX_SOFT_PWM) (slotTrace st)"
    by (simp_all add: tableInv_def)
  from setPWM_soft [OF False len cnt, of now duty]
  obtain idx tr where
    b: "idx \<le> softPWMCount st"
    and t: "list_all (\<lambda>(j, c). j < c \<and> c = unat (softPWMCount st)) tr"
    and e: "setPWM now pn duty st =
         (if unat idx \<ge> MAX_SOFT_PWM then
            Some (False, st\<lparr>hw := hw st @ [DigitalWrite pn LOW], slotTrace := slotTrace st @ tr\<rparr>)
          else if duty = 0 then
            (if idx < softPWMCount st then
               Some (True, st\<lparr>hw := hw st @ [DigitalWrite pn LOW],
                       softPWM := (softPWM st)[unat idx := (softPWM st ! unat idx)\<lparr>enabled := False\<rparr>],
                       slotTrace := slotTrace st @ tr @ [(unat idx, unat (softPWMCount st))]\<rparr>)
             else
               Some (True, st\<lparr>hw := hw st @ [DigitalWrite pn LOW], slotTrace := slotTrace st @ tr\<rparr>))
          else
            Some (True, st\<lparr>hw := hw st @ [DigitalWrite pn LOW],
                    softPWMCount := (if idx = softPWMCount st then softPWMCount st + 1
                                     else softPWMCount st),
                    softPWM := (softPWM st)[unat idx := \<lparr>pin = pn, dutyCycle = duty,
                                  lastToggle = now, state = False, enabled = True\<rparr>],
                    slotTrace := slotTrace st @ tr @
                      [(unat idx, unat (if idx = softPWMCount st then softPWMCount st + 1
                                        else softPWMCount st))]\<rparr>))"
    by blast
  have t': "list_all (\<lambda>(j, c). j < c \<and> c \<le> MAX_SOFT_PWM) tr"
    using t cnt by (rule trace_weaken)
  show ?thesis
  proof (cases "unat idx \<ge> MAX_SOFT_PWM")
    case True
    then show ?thesis
      using len cnt tr0 t' by (auto simp: e tableInv_def)
  next
    case small: False
    show ?thesis
    proof (cases "idx = softPWMCount st")
      case True
      then have "softPWMCount st < 6"
        using small by (simp add: word_less_nat_alt MAX_SOFT_PWM_def)
      then have "unat (softPWMCount st + 1) = Suc (unat (softPWMCount st))"
        by (rule byte_Suc)
      then show ?thesis
        using len cnt tr0 t' small True by (auto simp: e tableInv_def)
    next
      case False
      with b have "idx < softPWMCount st"
        by simp
      then show ?thesis
        using len cnt tr0 t' small by (auto simp: e tableInv_def word_less_nat_alt)
    qed
  qed
qed

lemma resetPWM_inv:
  assumes inv: "tableInv st"
  shows "\<exists>st'. resetPWM pn st = Some st' \<and> tableInv st'"
proof -
  from inv have "unat (softPWMCount st) \<le> length (softPWM st)"
    by (simp add: tableInv_def)
  from resetPWM_loop_result [OF this, of pn 0] inv show ?thesis
    by (auto simp: resetPWM_def tableInv_def intro: trace_weaken)
qed

lemma updateSoftPWM_inv:
  assumes inv: "tableInv st"
  shows "\<exists>st'. updateSoftPWM now st = Some st' \<and> tableInv st'"
proof -
  from inv have "unat (softPWMCount st) \<le> length (softPWM st)"
    by (simp add: tableInv_def)
  from updateSoftPWM_loop_spec [OF this, of now 0] inv show ?thesis
    by (auto simp: updateSoftPWM_def tableInv_def intro: trace_weaken)
qed

lemma reachable_inv: "reachable st \<Longrightarrow> tableInv st"
proof (induction rule: reachable.induct)
  case (init st)
  then show ?case by (simp add: tableInv_def)
next
  case (set st now pn duty ok st')
  with setPWM_inv [of st now pn duty] show ?case by auto
next
  case (reset st pn st')
  with resetPWM_inv [of st pn] show ?case by auto
next
  case (update st now st')
  with updateSoftPWM_inv [of st now] show ?case by auto
qed

text \<open>
  C10. In every state reachable from \<open>softPWMCount = 0\<close> by calls of \<open>setPWM\<close>,
  \<open>resetPWM\<close> and \<open>updateSoftPWM\<close>, the count is at most \<open>MAX_SOFT_PWM\<close>, every slot
  that was read or written had an index strictly below the count of that moment, which
  was itself at most \<open>MAX_SOFT_PWM\<close>, and each of the three operations returns: none of
  them indexes the table out of bounds.
\<close>

theorem softPWM_table_bounds:
  assumes "reachable st"
  shows "unat (softPWMCount st) \<le> MAX_SOFT_PWM
    \<and> list_all (\<lambda>(j, c). j < c \<and> c \<le> MAX_SOFT_PWM) (slotTrace st)
    \<and> (\<forall>now pn duty. setPWM now pn duty st \<noteq> None)
    \<and> (\<forall>pn. resetPWM pn st \<noteq> None)
    \<and> (\<forall>now. updateSoftPWM now st \<noteq> None)"
proof -
  from assms have inv: "tableInv st"
    by (rule reachable_inv)
  have "\<forall>now pn duty. setPWM now pn duty st \<noteq> None"
    using setPWM_inv [OF inv] by fastforce
  moreover have "\<forall>pn. resetPWM pn st \<noteq> None"
    using resetPWM_inv [OF inv] by fastforce
  moreover have "\<forall>now. updateSoftPWM now st \<noteq> None"
    using updateSoftPWM_inv [OF inv] by fastforce
  ultimately show ?thesis
    using inv by (simp add: tableInv_def)
qed

lemma replicate_6: "replicate 6 x = [x, x, x, x, x, x]"
  by (simp add: numeral_eq_Suc)

lemma dupState_reachable: "reachable dupState"
proof -
  let ?s1 = "powerOn
     \<lparr>softPWM := [chan 2 True, idle, idle, idle, idle, idle], softPWMCount := 1,
      hw := [DigitalWrite 2 LOW], slotTrace := [(0, 1)]\<rparr>"
  let ?s2 = "powerOn
     \<lparr>softPWM := [chan 2 True, chan 4 True, idle, idle, idle, idle], softPWMCount := 2,
      hw := [DigitalWrite 2 LOW, DigitalWrite 4 LOW], slotTrace := [(0, 1), (0, 1), (1, 2)]\<rparr>"
  let ?s3 = "powerOn
     \<lparr>softPWM := [chan 2 False, chan 4 True, idle, idle, idle, idle], softPWMCount := 2,
      hw := [DigitalWrite 2 LOW, DigitalWrite 4 LOW],
      slotTrace := [(0, 1), (0, 1), (1, 2), (0, 2), (0, 2)]\<rparr>"
  have r0: "reachable powerOn"
    by (rule reachable.init) (simp_all add: powerOn_def MAX_SOFT_PWM_def)
  have e1: "setPWM 0 2 1 powerOn = Some (True, ?s1)"
    by (simp add: powerOn_def pwm_eval idle_def chan_def LOW_def replicate_6)
  have e2: "setPWM 0 4 1 ?s1 = Some (True, ?s2)"
    by (simp add: powerOn_def pwm_eval idle_def chan_def LOW_def)
  have e3: "resetPWM 2 ?s2 = Some ?s3"
    by (simp add: powerOn_def pwm_eval idle_def chan_def LOW_def)
  have e4: "setPWM 0 4 1 ?s3 = Some (True, dupState)"
    by (simp add: dupState_def powerOn_def pwm_eval idle_def chan_def LOW_def)
  from r0 e1 have "reachable ?s1" by (rule reachable.set)
  from this e2 have "reachable ?s2" by (rule reachable.set)
  from this e3 have "reachable ?s3" by (rule reachable.reset)
  from this e4 show ?thesis by (rule reachable.set)
qed

theorem softPWM_table_bounds_witness:
  "reachable dupState
   \<and> unat (softPWMCount dupState) \<le> MAX_SOFT_PWM
   \<and> list_all (\<lambda>(j, c). j < c \<and> c \<le> MAX_SOFT_PWM) (slotTrace dupState)
   \<and> (\<forall>now pn duty. setPWM now pn duty dupState \<noteq> None)
   \<and> (\<forall>pn. resetPWM pn dupState \<noteq> None)
   \<and> (\<forall>now. updateSoftPWM now dupState \<noteq> None)"
  using softPWM_table_bounds [OF dupState_reachable] dupState_reachable
  by simp

subsection \<open>Digital writes and the scheduler\<close>

lemmas loop_eval =
  loop_def hasCompleteCommand_def getRequiredArgs_def executeBufferedCommand_def
  executeSwitch_def readPin_def sendResponse_def Serial_write_def emptyResult_def
  readSerial.simps shiftBuffer.simps cmd_defs pwm_eval

lemma replicate_10: "replicate 10 x = [x, x, x, x, x, x, x, x, x, x]"
  by (simp add: numeral_eq_Suc)

text \<open>
  C2 does not hold of the code. \<open>resetPWM\<close> stops at the first slot that holds the pin,
  and \<open>setPWM\<close> reuses a disabled slot that precedes the slot of the pin, so a pin can
  hold two enabled slots. After the five commands of \<open>session\<close>, the last of which is a
  digital-write of pin 4, slot 1 is still enabled for pin 4, and the pass of \<open>loop\<close>
  20 ms later writes pin 4 high.
\<close>

theorem digitalWrite_leaves_duplicate_channel:
  "run [(0, env0), (0, env0), (0, env0), (0, env0), (0, env0)] session = Returns afterSession
   \<and> softPWM afterSession ! 1 = chan 4 True
   \<and> loop 20 env0 afterSession
       = Returns (afterSession
           \<lparr>softPWM := [chan 4 False, (chan 4 True)\<lparr>state := True, lastToggle := 20\<rparr>,
                        idle, idle, idle, idle],
            hw := hw afterSession @ [DigitalWrite 4 HIGH],
            slotTrace := slotTrace afterSession @ [(0, 2), (1, 2), (1, 2)]\<rparr>)"
  by (simp add: session_def afterSession_def powerOn_def env0_def loop_eval idle_def chan_def
      LOW_def HIGH_def replicate_6 replicate_10)

subsection \<open>The main loop\<close>

lemma readSerial_result:
  "0 \<le> bufferIndex st \<Longrightarrow> bufferIndex st \<le> BUFFER_SIZE \<Longrightarrow>
   length (commandBuffer st) = nat BUFFER_SIZE \<Longrightarrow>
   \<exists>st'. readSerial st = Some st'
     \<and> bufferIndex st' = bufferIndex st
          + int (min (length (serialIn st)) (nat (BUFFER_SIZE - bufferIndex st)))
     \<and> take (nat (bufferIndex st')) (commandBuffer st')
          = take (nat (bufferIndex st)) (commandBuffer st)
            @ take (min (length (serialIn st)) (nat (BUFFER_SIZE - bufferIndex st))) (serialIn st)
     \<and> length (commandBuffer st') = length (commandBuffer st)
     \<and> softPWM st' = softPWM st \<and> softPWMCount st' = softPWMCount st
     \<and> hw st' = hw st \<and> serialOut st' = serialOut st \<and> result st' = result st"
proof (induction st rule: readSerial.induct)
  case (1 st)
  show ?case
  proof (cases "serialIn st \<noteq> [] \<and> bufferIndex st < BUFFER_SIZE")
    case False
    then have "min (length (serialIn st)) (nat (BUFFER_SIZE - bufferIndex st)) = 0"
      using 1(3) by auto
    moreover have "readSerial st = Some st"
      by (subst readSerial.simps) (simp only: False if_False)
    ultimately show ?thesis
      by simp
  next
    case True
    let ?n = "nat (bufferIndex st)"
    let ?st1 = "st\<lparr>commandBuffer := (commandBuffer st)[?n := hd (serialIn st)],
                 bufferIndex := bufferIndex st + 1,
                 serialIn := tl (serialIn st)\<rparr>"
    have inb: "0 \<le> bufferIndex st \<and> ?n < length (commandBuffer st)"
      using True 1(2) 1(4) by auto
    have e: "readSerial st = readSerial ?st1"
      using True inb by (subst readSerial.simps) simp
    from True obtain x xs where inp: "serialIn st = x # xs"
      by (cases "serialIn st") auto
    have "0 \<le> bufferIndex ?st1" "bufferIndex ?st1 \<le> BUFFER_SIZE"
      "length (commandBuffer ?st1) = nat BUFFER_SIZE"
      using True 1(2) 1(4) by simp_all
    from 1(1) [OF True inb this]
    obtain st' where
      r: "readSerial ?st1 = Some st'"
      and b: "bufferIndex st' = bufferIndex st + 1
          + int (min (length xs) (nat (BUFFER_SIZE - (bufferIndex st + 1))))"
      and t: "take (nat (bufferIndex st')) (commandBuffer st')
          = take (nat (bufferIndex st + 1)) ((commandBuffer st)[?n := x])
            @ take (min (length xs) (nat (BUFFER_SIZE - (bufferIndex st + 1)))) xs"
      and rest: "length (commandBuffer st') = length (commandBuffer st)"
        "softPWM st' = softPWM st" "softPWMCount st' = softPWMCount st"
        "hw st' = hw st" "serialOut st' = serialOut st" "result st' = result st"
      by (auto simp: inp)
    have k: "min (Suc (length xs)) (nat (BUFFER_SIZE - bufferIndex st))
        = Suc (min (length xs) (nat (BUFFER_SIZE - (bufferIndex st + 1))))"
      using True by (auto simp: min_def)
    have n1: "nat (bufferIndex st + 1) = Suc ?n"
      using inb by arith
    have tk: "take (Suc ?n) ((commandBuffer st)[?n := x]) = take ?n (commandBuffer st) @ [x]"
      using inb by (simp add: take_Suc_conv_app_nth)
    show ?thesis
      using r b t rest by (simp add: e k n1 tk inp)
  qed
qed

lemma shiftBuffer_result:
  "0 \<le> L \<Longrightarrow> L \<le> i \<Longrightarrow> bufferIndex st \<le> int (length (commandBuffer st)) \<Longrightarrow>
   \<exists>st'. shiftBuffer L i st = Some st'
     \<and> length (commandBuffer st') = length (commandBuffer st)
     \<and> (\<forall>j < length (commandBuffer st). commandBuffer st' ! j =
           (if nat (i - L) \<le> j \<and> int j < bufferIndex st - L
            then commandBuffer st ! (j + nat L) else commandBuffer st ! j))
     \<and> st' = st\<lparr>commandBuffer := commandBuffer st'\<rparr>"
proof (induction L i st rule: shiftBuffer.induct)
  case (1 L i st)
  show ?case
  proof (cases "i < bufferIndex st")
    case False
    then show ?thesis
      using 1(2,3) by (subst shiftBuffer.simps) auto
  next
    case True
    let ?buf = "commandBuffer st"
    let ?st1 = "st\<lparr>commandBuffer := ?buf[nat (i - L) := ?buf ! nat i]\<rparr>"
    have inb: "0 \<le> i - L \<and> 0 \<le> i \<and> nat i < length ?buf \<and> nat (i - L) < length ?buf"
      using True 1(2,3,4) by auto
    have e: "shiftBuffer L i st = shiftBuffer L (i + 1) ?st1"
      using True inb by (subst shiftBuffer.simps) simp
    have "L \<le> i + 1" "bufferIndex ?st1 \<le> int (length (commandBuffer ?st1))"
      using 1(3,4) by simp_all
    from 1(1) [OF True inb 1(2) this]
    obtain st' where
      r: "shiftBuffer L (i + 1) ?st1 = Some st'"
      and l: "length (commandBuffer st') = length ?buf"
      and t: "\<forall>j < length ?buf. commandBuffer st' ! j =
           (if nat (i + 1 - L) \<le> j \<and> int j < bufferIndex st - L
            then ?buf[nat (i - L) := ?buf ! nat i] ! (j + nat L)
            else ?buf[nat (i - L) := ?buf ! nat i] ! j)"
      and s: "st' = ?st1\<lparr>commandBuffer := commandBuffer st'\<rparr>"
      by auto
    have "\<forall>j < length ?buf. commandBuffer st' ! j =
           (if nat (i - L) \<le> j \<and> int j < bufferIndex st - L
            then ?buf ! (j + nat L) else ?buf ! j)"
    proof (intro allI impI)
      fix j assume j: "j < length ?buf"
      have n: "nat (i + 1 - L) = Suc (nat (i - L))"
        using inb by arith
      show "commandBuffer st' ! j =
           (if nat (i - L) \<le> j \<and> int j < bufferIndex st - L
            then ?buf ! (j + nat L) else ?buf ! j)"
      proof (cases "j = nat (i - L)")
        case True
        have "nat (i - L) + nat L = nat i"
          using inb 1(2) by arith
        with True t j inb \<open>i < bufferIndex st\<close> show ?thesis
          by (simp add: n)
      next
        case False
        have "nat (i - L) < j \<Longrightarrow> j + nat L \<noteq> nat (i - L)"
          by simp
        with False t j show ?thesis
          by (auto simp: n)
      qed
    qed
    with r l s show ?thesis
      by (simp add: e)
  qed
qed

lemma setPWM_frame:
  assumes len: "length (softPWM st) = MAX_SOFT_PWM"
    and cnt: "unat (softPWMCount st) \<le> MAX_SOFT_PWM"
  shows "\<exists>r. setPWM now pn duty st = Some r \<and> sameOutsidePWM st (snd r)"
proof (cases "isHardwarePWMPin pn")
  case True
  then show ?thesis
    by (simp add: setPWM_def sameOutsidePWM_def)
next
  case False
  from setPWM_soft [OF False len cnt, of now duty]
  show ?thesis
    by (elim exE conjE) (auto simp: sameOutsidePWM_def)
qed

lemma sendInfo_frame:
  "commandBuffer (sendInfo env st) = commandBuffer st"
  "bufferIndex (sendInfo env st) = bufferIndex st"
  "serialIn (sendInfo env st) = serialIn st"
  "result (sendInfo env st) = result st"
  by (simp_all add: sendInfo_def sendUInt16_def sendUInt32_def Serial_write_def
      Serial_write_buf_def)

lemma sendResponse_frame:
  "commandBuffer (sendResponse st) = commandBuffer st"
  "bufferIndex (sendResponse st) = bufferIndex st"
  by (simp_all add: sendResponse_def Serial_write_def Let_def)

lemma executeSwitch_returns:
  assumes len: "length (softPWM st) = MAX_SOFT_PWM"
    and cnt: "unat (softPWMCount st) \<le> MAX_SOFT_PWM"
    and cmd: "command \<noteq> CMD_RESET"
  shows "\<exists>st'. executeSwitch env command pn st = Returns st'
     \<and> commandBuffer st' = commandBuffer st \<and> bufferIndex st' = bufferIndex st"
proof -
  from len cnt have "unat (softPWMCount st) \<le> length (softPWM st)"
    by simp
  from resetPWM_loop_result [OF this, of pn 0]
  obtain s1 where r: "resetPWM pn st = Some s1" and f1: "sameOutsidePWM st s1"
    by (auto simp: resetPWM_def)
  from setPWM_frame [OF len cnt, of "millis env" pn "commandBuffer st ! 2"]
  obtain ok s2 where s: "setPWM (millis env) pn (commandBuffer st ! 2) st = Some (ok, s2)"
    and f2: "sameOutsidePWM st s2"
    by auto
  show ?thesis
    using cmd f1 f2
    by (simp add: executeSwitch_def r s Let_def sendInfo_frame sameOutsidePWM_def)
qed

lemma executeBufferedCommand_returns:
  assumes len: "length (softPWM st) = MAX_SOFT_PWM"
    and cnt: "unat (softPWMCount st) \<le> MAX_SOFT_PWM"
    and cmd: "commandBuffer st ! 0 \<noteq> CMD_RESET"
  shows "\<exists>st'. executeBufferedCommand env st = Returns st'
     \<and> commandBuffer st' = commandBuffer st \<and> bufferIndex st' = bufferIndex st"
proof -
  have a: "\<And>pn s. softPWM s = softPWM st \<Longrightarrow> softPWMCount s = softPWMCount st \<Longrightarrow>
      \<exists>st'. executeSwitch env (commandBuffer st ! 0) pn s = Returns st'
        \<and> commandBuffer st' = commandBuffer s \<and> bufferIndex st' = bufferIndex s"
    using len cnt cmd by (intro executeSwitch_returns) simp_all
  obtain pn error where rp: "readPin (A0 env) (commandBuffer st ! Suc 0) False = (pn, error)"
    by (cases "readPin (A0 env) (commandBuffer st ! Suc 0) False") auto
  from a [of "st\<lparr>result := emptyResult\<rparr>" 0]
    a [of "st\<lparr>result := emptyResult\<lparr>hasError := error\<rparr>\<rparr>" pn]
  show ?thesis
    by (auto simp: executeBufferedCommand_def Let_def rp)
qed

text \<open>
  C8, as stated, fails for the reset command: its dispatch jumps to address 0 and never
  returns to \<open>loop\<close>, so the bytes after it are not moved.
\<close>

theorem loop_restarts_on_reset:
  "hasCompleteCommand resetBuffered
   \<and> bufferIndex resetBuffered = 3
   \<and> 1 + getRequiredArgs (commandBuffer resetBuffered ! 0) = 1
   \<and> loop 0 env0 resetBuffered = Restarts (resetBuffered\<lparr>serialOut := [SUCCESS_CODE]\<rparr>)"
  by (simp add: loop_def hasCompleteCommand_def getRequiredArgs_def cmd_defs resetBuffered_def
      powerOn_def updateSoftPWM_def updateSoftPWM_loop.simps readSerial.simps
      executeBufferedCommand_def executeSwitch_def sendResponse_def Serial_write_def
      emptyResult_def BUFFER_SIZE_def)

text \<open>
  C8, amended. In a well-formed state, when the buffered bytes start with a complete
  command other than reset, of length \<open>L\<close> (the opcode and its operands), and \<open>N \<ge> L\<close>
  bytes are buffered, one pass of \<open>loop\<close> returns with the logical length \<open>N - L\<close> and
  with the \<open>N - L\<close> bytes that followed the command at offset 0, in their order.
\<close>

theorem loop_compacts_buffer:
  assumes len: "length (softPWM st) = MAX_SOFT_PWM"
    and cnt: "unat (softPWMCount st) \<le> MAX_SOFT_PWM"
    and buf: "length (commandBuffer st) = nat BUFFER_SIZE"
    and idx: "0 \<le> bufferIndex st" "bufferIndex st \<le> BUFFER_SIZE"
    and complete: "1 + getRequiredArgs (hd (buffered st)) \<le> int (length (buffered st))"
    and cmd: "hd (buffered st) \<noteq> CMD_RESET"
  shows "\<exists>st'. loop now env st = Returns st'
     \<and> bufferIndex st' = int (length (buffered st)) - (1 + getRequiredArgs (hd (buffered st)))
     \<and> take (nat (bufferIndex st')) (commandBuffer st')
         = drop (nat (1 + getRequiredArgs (hd (buffered st)))) (buffered st)"
proof -
  let ?L = "1 + getRequiredArgs (hd (buffered st))"
  let ?k = "min (length (serialIn st)) (nat (BUFFER_SIZE - bufferIndex st))"
  have L0: "0 \<le> ?L" "1 \<le> ?L"
    by (simp_all add: getRequiredArgs_def)
  have ne: "buffered st \<noteq> []"
    using complete L0 by auto
  from len cnt have "unat (softPWMCount st) \<le> length (softPWM st)"
    by simp
  from updateSoftPWM_loop_spec [OF this, of now 0]
  obtain st1 where
    u: "updateSoftPWM now st = Some st1"
    and l1: "length (softPWM st1) = length (softPWM st)"
    and c1: "softPWMCount st1 = softPWMCount st"
    and o1: "sameOutsidePWM st st1"
    by (auto simp: updateSoftPWM_def)
  from o1 have b1: "commandBuffer st1 = commandBuffer st" "bufferIndex st1 = bufferIndex st"
    "serialIn st1 = serialIn st"
    by (simp_all add: sameOutsidePWM_def)
  from readSerial_result [of st1] idx buf
  obtain st2 where
    r: "readSerial st1 = Some st2"
    and n2: "bufferIndex st2 = bufferIndex st + int ?k"
    and t2: "take (nat (bufferIndex st2)) (commandBuffer st2) = buffered st"
    and l2: "length (commandBuffer st2) = nat BUFFER_SIZE"
    and p2: "softPWM st2 = softPWM st1" "softPWMCount st2 = softPWMCount st1"
    by (auto simp: b1 buffered_def)
  have nlen: "int (length (buffered st)) = bufferIndex st2"
    using idx buf by (auto simp: buffered_def n2 min_def)
  have pos: "0 < bufferIndex st2"
    using ne nlen by (cases "buffered st") auto
  have "hd (take (nat (bufferIndex st2)) (commandBuffer st2)) = commandBuffer st2 ! 0"
    using pos l2 by (cases "commandBuffer st2"; cases "nat (bufferIndex st2)")
      (auto simp: BUFFER_SIZE_def)
  then have hd2: "commandBuffer st2 ! 0 = hd (buffered st)"
    by (simp add: t2)
  have hc: "hasCompleteCommand st2"
    using pos complete by (simp add: hasCompleteCommand_def hd2 nlen)
  from executeBufferedCommand_returns [of st2 env] len cnt cmd
  obtain st3 where
    x: "executeBufferedCommand env st2 = Returns st3"
    and b3: "commandBuffer st3 = commandBuffer st2" "bufferIndex st3 = bufferIndex st2"
    by (auto simp: p2 l1 c1 hd2)
  let ?st4 = "sendResponse st3"
  have b4: "commandBuffer ?st4 = commandBuffer st2" "bufferIndex ?st4 = bufferIndex st2"
    by (simp_all add: sendResponse_frame b3)
  have le2: "bufferIndex st2 \<le> BUFFER_SIZE"
    using idx by (simp add: n2 min_def) arith
  have le4: "bufferIndex ?st4 \<le> int (length (commandBuffer ?st4))"
    using le2 by (simp add: b4 l2 BUFFER_SIZE_def)
  from shiftBuffer_result [OF L0(1) order_refl le4]
  obtain st5 where
    s: "shiftBuffer ?L ?L ?st4 = Some st5"
    and l5: "length (commandBuffer st5) = nat BUFFER_SIZE"
    and t5: "\<forall>j < nat BUFFER_SIZE. commandBuffer st5 ! j =
           (if int j < bufferIndex st2 - ?L
            then commandBuffer st2 ! (j + nat ?L) else commandBuffer st2 ! j)"
    and f5: "st5 = ?st4\<lparr>commandBuffer := commandBuffer st5\<rparr>"
    by (auto simp: b4 l2)
  have i5: "bufferIndex st5 = bufferIndex st2"
    by (subst f5) (simp add: b4)
  have e: "loop now env st = Returns (st5\<lparr>bufferIndex := bufferIndex st5 - ?L\<rparr>)"
    by (simp add: loop_def u r hc x Let_def b4 hd2 s)
  have "take (nat (bufferIndex st2 - ?L)) (commandBuffer st5)
      = drop (nat ?L) (take (nat (bufferIndex st2)) (commandBuffer st2))"
  proof (rule nth_equalityI)
    show "length (take (nat (bufferIndex st2 - ?L)) (commandBuffer st5))
        = length (drop (nat ?L) (take (nat (bufferIndex st2)) (commandBuffer st2)))"
      using le2 L0 complete by (simp add: l5 l2 nlen)
  next
    fix j assume "j < length (take (nat (bufferIndex st2 - ?L)) (commandBuffer st5))"
    then have j: "j < nat (bufferIndex st2 - ?L)" "j < nat BUFFER_SIZE"
      by (simp_all add: l5)
    then have "int j < bufferIndex st2 - ?L"
      by arith
    with t5 j have "commandBuffer st5 ! j = commandBuffer st2 ! (j + nat ?L)"
      by simp
    moreover have "nat ?L + j < nat (bufferIndex st2)"
      using j L0 by arith
    ultimately show "take (nat (bufferIndex st2 - ?L)) (commandBuffer st5) ! j
        = drop (nat ?L) (take (nat (bufferIndex st2)) (commandBuffer st2)) ! j"
      using j l2 le2 by (simp add: add.commute)
  qed
  then show ?thesis
    by (simp add: e i5 nlen t2)
qed

theorem loop_compacts_buffer_witness:
  "(length (softPWM fiveBuffered) = MAX_SOFT_PWM
    \<and> unat (softPWMCount fiveBuffered) \<le> MAX_SOFT_PWM
    \<and> length (commandBuffer fiveBuffered) = nat BUFFER_SIZE
    \<and> 0 \<le> bufferIndex fiveBuffered \<and> bufferIndex fiveBuffered \<le> BUFFER_SIZE
    \<and> buffered fiveBuffered = [3, 13, 1, 2, 5]
    \<and> 1 + getRequiredArgs (hd (buffered fiveBuffered)) = 3
    \<and> hd (buffered fiveBuffered) \<noteq> CMD_RESET)
   \<and> (\<exists>st'. loop 0 env0 fiveBuffered = Returns st'
        \<and> bufferIndex st' = 2
        \<and> take 2 (commandBuffer st') = [2, 5])"
proof -
  have b: "buffered fiveBuffered = [3, 13, 1, 2, 5]"
    by (simp add: buffered_def fiveBuffered_def powerOn_def BUFFER_SIZE_def)
  have h: "length (softPWM fiveBuffered) = MAX_SOFT_PWM"
    "unat (softPWMCount fiveBuffered) \<le> MAX_SOFT_PWM"
    "length (commandBuffer fiveBuffered) = nat BUFFER_SIZE"
    "0 \<le> bufferIndex fiveBuffered" "bufferIndex fiveBuffered \<le> BUFFER_SIZE"
    "1 + getRequiredArgs (hd (buffered fiveBuffered)) \<le> int (length (buffered fiveBuffered))"
    "hd (buffered fiveBuffered) \<noteq> CMD_RESET"
    by (simp_all add: b getRequiredArgs_def cmd_defs)
       (simp_all add: fiveBuffered_def powerOn_def BUFFER_SIZE_def)
  have L: "1 + getRequiredArgs (hd (buffered fiveBuffered)) = 3"
    by (simp add: b getRequiredArgs_def cmd_defs)
  have g: "getRequiredArgs 3 = 2"
    by (simp add: getRequiredArgs_def cmd_defs)
  from loop_compacts_buffer [OF h, of 0 env0]
  have "\<exists>st'. loop 0 env0 fiveBuffered = Returns st'
        \<and> bufferIndex st' = 2
        \<and> take 2 (commandBuffer st') = [2, 5]"
    by (auto simp: b g)
  then show ?thesis
    using h b L by simp
qed

end
